theory Spec2Isabelle
  imports Complex_Main "HOL-Library.AList" "HOL-Library.Log_Nat"
begin

section \<open>JavaScript values\<close>

text \<open>
  The election module is dynamically typed JavaScript. The values its functions
  inspect are modelled by \<open>jsval\<close>: the primitives, plain objects (own
  enumerable properties in insertion order, prototype \<open>Object.prototype\<close>),
  function values (identified by a name) and the object \<open>Object.prototype\<close>
  itself. A finite number is a double, held by its rational value (section
  \<open>Numbers\<close>). Arrays, getters and objects with another prototype are outside
  \<open>jsval\<close>. The engine enumerates integer-like keys of an object first; no
  function of the module depends on the order of the properties.
\<close>

datatype jsnum = Fin rat | NaN | PosInf | NegInf

datatype jsval =
    Undefined
  | Null
  | JBool bool
  | JNum jsnum
  | JStr string
  | JObj "(string \<times> jsval) list"
  | JFun string
  | JObjProto

datatype jstype = TUndefined | TObject | TBoolean | TNumber | TString | TFunction

fun typeof :: "jsval \<Rightarrow> jstype" where
  "typeof Undefined = TUndefined"
| "typeof Null = TObject"
| "typeof (JBool b) = TBoolean"
| "typeof (JNum n) = TNumber"
| "typeof (JStr s) = TString"
| "typeof (JObj ps) = TObject"
| "typeof (JFun f) = TFunction"
| "typeof JObjProto = TObject"

text \<open>ToBoolean: what \<open>!v\<close> and \<open>v && ...\<close> test.\<close>

fun truthy :: "jsval \<Rightarrow> bool" where
  "truthy Undefined = False"
| "truthy Null = False"
| "truthy (JBool b) = b"
| "truthy (JNum (Fin q)) = (q \<noteq> 0)"
| "truthy (JNum NaN) = False"
| "truthy (JNum PosInf) = True"
| "truthy (JNum NegInf) = True"
| "truthy (JStr s) = (s \<noteq> [])"
| "truthy (JObj ps) = True"
| "truthy (JFun f) = True"
| "truthy JObjProto = True"

text \<open>\<open>Number.isFinite\<close> does not coerce: only a finite number passes.\<close>

fun isFinite :: "jsval \<Rightarrow> bool" where
  "isFinite (JNum (Fin q)) = True"
| "isFinite v = False"

text \<open>
  The properties every plain object inherits from \<open>Object.prototype\<close>. All
  are functions but \<open>__proto__\<close>, an accessor that yields the prototype.
\<close>

definition object_prototype_functions :: "string list" where
  "object_prototype_functions =
     [''constructor'', ''hasOwnProperty'', ''isPrototypeOf'', ''propertyIsEnumerable'',
      ''toLocaleString'', ''toString'', ''valueOf'',
      ''__defineGetter__'', ''__defineSetter__'', ''__lookupGetter__'', ''__lookupSetter__'']"

definition inherited :: "string \<Rightarrow> jsval" where
  "inherited k =
     (if k \<in> set object_prototype_functions then JFun k
      else if k = ''__proto__'' then JObjProto
      else Undefined)"

text \<open>
  Property read \<open>v[k]\<close> on an object: an own property first, then the
  prototype chain. Every read in the module is guarded by a \<open>typeof v === 'object'\<close>
  test on a truthy \<open>v\<close>, so the last equation is never reached.
\<close>

fun get_prop :: "jsval \<Rightarrow> string \<Rightarrow> jsval" where
  "get_prop (JObj ps) k = (case map_of ps k of Some v \<Rightarrow> v | None \<Rightarrow> inherited k)"
| "get_prop JObjProto k =
     (if k \<in> set object_prototype_functions then JFun k
      else if k = ''__proto__'' then Null
      else Undefined)"
| "get_prop v k = Undefined"

text \<open>The own enumerable properties an object spread \<open>{...v}\<close> copies.\<close>

fun own_props :: "jsval \<Rightarrow> (string \<times> jsval) list" where
  "own_props (JObj ps) = ps"
| "own_props v = []"

section \<open>Numbers\<close>

text \<open>
  A JavaScript number is an IEEE 754 binary64 value. \<open>Fin q\<close> is the finite
  double whose value is the rational \<open>q\<close>. An arithmetic operation yields its
  exact result rounded to the nearest double, a tie going to the double with an
  even significand. \<open>round_double x\<close> is that double for a rational \<open>x\<close> below
  the overflow threshold: the doubles of magnitude \<open>2^e \<le> |x| < 2^(e+1)\<close> are
  the multiples of \<open>2^(e-52)\<close>, and below \<open>2^-1022\<close> (the subnormal range) they
  are the multiples of \<open>2^-1074\<close>. \<open>binade x\<close> is that exponent \<open>e\<close> for \<open>0 < x\<close>
  (\<open>bitlen n\<close> is the number of binary digits of \<open>n\<close>). \<open>to_double\<close> adds the
  overflow to an infinity, and \<open>max_double\<close> is \<open>Number.MAX_VALUE\<close>. The two
  zeros of the format are one value \<open>Fin 0\<close>: no operation of the module tells
  them apart.
\<close>

definition round_half_even :: "rat \<Rightarrow> int" where
  "round_half_even y =
     (let f = \<lfloor>y\<rfloor>; d = y - of_int f
      in if d < 1 / 2 then f else if 1 / 2 < d then f + 1 else if even f then f else f + 1)"

definition binade :: "rat \<Rightarrow> int" where
  "binade x = (if 1 \<le> x then bitlen \<lfloor>x\<rfloor> - 1 else - bitlen (\<lceil>1 / x\<rceil> - 1))"

definition pow2 :: "int \<Rightarrow> rat" where
  "pow2 k = (if 0 \<le> k then 2 ^ nat k else 1 / 2 ^ nat (- k))"

definition round_double :: "rat \<Rightarrow> rat" where
  "round_double x =
     (if x = 0 then 0
      else let ulp = pow2 (max (binade \<bar>x\<bar>) (- 1022) - 52)
           in sgn x * (of_int (round_half_even (\<bar>x\<bar> / ulp)) * ulp))"

definition to_double :: "rat \<Rightarrow> jsnum" where
  "to_double x =
     (let r = round_double x
      in if 2 ^ 1024 \<le> \<bar>r\<bar> then (if 0 < x then PosInf else NegInf) else Fin r)"

definition max_double :: rat where
  "max_double = (2 ^ 53 - 1) * 2 ^ 971"

section \<open>tallyPure\<close>

text \<open>
  \<^verbatim>\<open>
  export function tallyPure(currentTally, candidateId) {
    const safe = currentTally && typeof currentTally === 'object' ? currentTally : {};
    const current = Number.isFinite(safe[candidateId]) ? safe[candidateId] : 0;
    return { ...safe, [candidateId]: current + 1 };
  }
  \<close>
  \<open>finite_or v d\<close> is \<open>Number.isFinite(v) ? v : d\<close>. The computed key of the
  object literal defines an own property: an existing key keeps its place and
  takes the new value, a new key is appended. The sum \<open>current + 1\<close> is the sum
  of doubles: \<open>current\<close> is a finite double, so the exact sum is at most
  \<open>max_double + 1\<close> in magnitude and rounds to a finite double
  (\<open>double_plus_one_finite\<close> below), which is \<open>round_double (current + 1)\<close>.
\<close>

fun finite_or :: "jsval \<Rightarrow> rat \<Rightarrow> rat" where
  "finite_or (JNum (Fin q)) d = q"
| "finite_or v d = d"

definition tallyPure :: "jsval \<Rightarrow> string \<Rightarrow> jsval" where
  "tallyPure currentTally candidateId =
     (let safe = (if truthy currentTally \<and> typeof currentTally = TObject
                  then currentTally else JObj []);
          current = finite_or (get_prop safe candidateId) 0
      in JObj (AList.update candidateId (JNum (Fin (round_double (current + 1))))
                 (own_props safe)))"

section \<open>The election closure\<close>

text \<open>
  A candidate is a record of three strings, as the data model has it. The
  closure of \<open>createElection\<close> owns the roster, the tally object \<open>votes\<close> and
  the two \<open>Set\<close>s. A \<open>Set\<close> is its list of elements in insertion order;
  \<open>has\<close> and \<open>add\<close> are the only operations the module uses.
\<close>

record candidate =
  c_id :: string
  c_name :: string
  c_party :: string

definition set_has :: "'a list \<Rightarrow> 'a \<Rightarrow> bool" where
  "set_has xs x = (x \<in> set xs)"

definition set_add :: "'a list \<Rightarrow> 'a \<Rightarrow> 'a list" where
  "set_add xs x = (if x \<in> set xs then xs else xs @ [x])"

text \<open>
  The closure variable \<open>votes\<close> starts as \<open>{}\<close> and is only ever replaced by
  the result of \<open>tallyPure\<close>, so it is a plain object whose own properties are
  counts. The state keeps those counts; \<open>tally_obj\<close> is the object itself.
\<close>

type_synonym tally = "(string \<times> nat) list"

definition tally_obj :: "tally \<Rightarrow> jsval" where
  "tally_obj t = JObj (map (\<lambda>(k, n). (k, JNum (Fin (of_nat n)))) t)"

text \<open>
  \<open>tallyPure\<close> on such a tally; \<open>tallyPure_tally_obj\<close> below relates the two.
  \<open>count_plus_one n\<close> is \<open>current + 1\<close> for the count \<open>n\<close>: the sum of doubles,
  which is an integer again (\<open>count_plus_one_rat\<close>), and \<open>n + 1\<close> as long as
  \<open>n < 2^53\<close> (\<open>count_plus_one_small\<close>).
\<close>

definition count_plus_one :: "nat \<Rightarrow> nat" where
  "count_plus_one n = nat \<lfloor>round_double (of_nat n + 1)\<rfloor>"

definition tallyPure_votes :: "tally \<Rightarrow> string \<Rightarrow> tally" where
  "tallyPure_votes t candidateId =
     (let current = (case map_of t candidateId of Some n \<Rightarrow> n | None \<Rightarrow> 0)
      in AList.update candidateId (count_plus_one current) t)"

record election =
  candidateList :: "candidate list"
  votes :: tally
  registeredVoters :: "jsval list"
  votedVoters :: "jsval list"

text \<open>\<open>new Map(entries)\<close>: a later entry with the same key replaces an earlier one.\<close>

definition js_Map :: "('k \<times> 'v) list \<Rightarrow> 'k \<rightharpoonup> 'v" where
  "js_Map entries = map_of (rev entries)"

definition candidateById :: "election \<Rightarrow> string \<rightharpoonup> candidate" where
  "candidateById e = js_Map (map (\<lambda>c. (c_id c, c)) (candidateList e))"

definition candidateIndex :: "election \<Rightarrow> string \<rightharpoonup> nat" where
  "candidateIndex e =
     js_Map (map (\<lambda>(idx, c). (c_id c, idx)) (List.enumerate 0 (candidateList e)))"

text \<open>
  \<open>createElection(candidates)\<close>: \<open>None\<close> stands for an argument that is not an
  array.
\<close>

definition createElection :: "candidate list option \<Rightarrow> election" where
  "createElection candidates =
     \<lparr> candidateList = (case candidates of Some cs \<Rightarrow> cs | None \<Rightarrow> []),
       votes = [],
       registeredVoters = [],
       votedVoters = [] \<rparr>"

subsection \<open>registerVoter\<close>

text \<open>
  \<open>js_length\<close> and \<open>num_lt\<close> are \<open>v.length\<close> and \<open>v < m\<close>; the source reads
  them behind \<open>||\<close>, only once \<open>v\<close> is known to be a string, respectively a
  finite number.
\<close>

fun js_length :: "jsval \<Rightarrow> nat" where
  "js_length (JStr s) = length s"
| "js_length v = 0"

fun num_lt :: "jsval \<Rightarrow> rat \<Rightarrow> bool" where
  "num_lt (JNum (Fin q)) m = (q < m)"
| "num_lt v m = False"

definition isValidVoter :: "jsval \<Rightarrow> bool" where
  "isValidVoter voter =
     (if \<not> truthy voter \<or> typeof voter \<noteq> TObject then False
      else if typeof (get_prop voter ''id'') \<noteq> TString \<or> js_length (get_prop voter ''id'') = 0
        then False
      else if typeof (get_prop voter ''name'') \<noteq> TString
                \<or> js_length (get_prop voter ''name'') = 0
        then False
      else if \<not> isFinite (get_prop voter ''age'') \<or> num_lt (get_prop voter ''age'') 18
        then False
      else True)"

definition registerVoter :: "election \<Rightarrow> jsval \<Rightarrow> bool \<times> election" where
  "registerVoter e voter =
     (if \<not> isValidVoter voter then (False, e)
      else if set_has (registeredVoters e) (get_prop voter ''id'') then (False, e)
      else (True, e\<lparr>registeredVoters := set_add (registeredVoters e) (get_prop voter ''id'')\<rparr>))"

subsection \<open>castVote\<close>

text \<open>
  A callback argument is \<open>Some f\<close> when it is a function and \<open>None\<close> otherwise.
  The outcome of \<open>castVote\<close> records which callback was invoked, with which
  argument, what the call returned, and the state afterwards. The voter id is
  any value: \<open>Set.has\<close> compares it with the registered ids, which are strings.
  The candidate id is a string, as the roster's ids are: it is looked up in the
  roster's \<open>Map\<close> and then used as a property key of the tally. A callback is
  invoked last, after the state has been updated, so what it does to the
  election is a later operation.
\<close>

type_synonym callback = "(jsval \<Rightarrow> jsval) option"

datatype invoked = SuccessCb jsval | ErrorCb jsval

record outcome =
  invoked :: invoked
  returned :: jsval
  after :: election

definition castVote ::
  "election \<Rightarrow> jsval \<Rightarrow> string \<Rightarrow> callback \<Rightarrow> callback \<Rightarrow> outcome" where
  "castVote e voterId candidateId onSuccess onError =
     (let successCb = (case onSuccess of Some f \<Rightarrow> f | None \<Rightarrow> (\<lambda>x. Undefined));
          errorCb = (case onError of Some f \<Rightarrow> f | None \<Rightarrow> (\<lambda>x. Undefined))
      in
      if \<not> set_has (registeredVoters e) voterId then
        \<lparr> invoked = ErrorCb (JStr ''voter not registered''),
          returned = errorCb (JStr ''voter not registered''), after = e \<rparr>
      else if candidateById e candidateId = None then
        \<lparr> invoked = ErrorCb (JStr ''invalid candidate''),
          returned = errorCb (JStr ''invalid candidate''), after = e \<rparr>
      else if set_has (votedVoters e) voterId then
        \<lparr> invoked = ErrorCb (JStr ''voter already voted''),
          returned = errorCb (JStr ''voter already voted''), after = e \<rparr>
      else
        (let payload = JObj [(''voterId'', voterId), (''candidateId'', JStr candidateId)]
         in \<lparr> invoked = SuccessCb payload,
              returned = successCb payload,
              after = e\<lparr>votes := tallyPure_votes (votes e) candidateId,
                        votedVoters := set_add (votedVoters e) voterId\<rparr> \<rparr>))"

subsection \<open>getResults\<close>

text \<open>
  \<^verbatim>\<open>
  const results = candidateList.map((c) => ({
    id: c.id, name: c.name, party: c.party, votes: votes[c.id] ?? 0 }));
  \<close>
  The read \<open>votes[c.id]\<close> finds an own count, or else whatever the tally object
  inherits under that name; \<open>??\<close> replaces only \<open>undefined\<close> and \<open>null\<close>. So the
  \<open>votes\<close> field is a count, or the value \<open>inherited k\<close> of \<open>Object.prototype\<close>,
  named here by its property name \<open>k\<close>. Such a value is a reference to a shared
  object of the program, a built-in function or, for \<open>__proto__\<close>,
  \<open>Object.prototype\<close> itself; the record does not hold a copy of it.
  \<open>inherited\<close> is \<open>Object.prototype\<close> as the program finds it at its start;
  \<open>prototype_get\<close> below is the read after properties have been assigned to it.
\<close>

datatype vote_field = Count nat | Inherited string

definition read_votes :: "tally \<Rightarrow> string \<Rightarrow> vote_field" where
  "read_votes t k =
     (case map_of t k of
        Some n \<Rightarrow> Count n
      | None \<Rightarrow> (case inherited k of
                   Undefined \<Rightarrow> Count 0
                 | Null \<Rightarrow> Count 0
                 | v \<Rightarrow> Inherited k))"

record result =
  r_id :: string
  r_name :: string
  r_party :: string
  r_votes :: vote_field

text \<open>
  \<open>Array.prototype.sort(cmp)\<close> is a stable sort: with a consistent comparator
  the result is the one ordering in which \<open>a\<close> precedes \<open>b\<close> whenever
  \<open>cmp(a, b) < 0\<close>, equal elements keeping their order. It is modelled by
  insertion from the right. A comparator result that is \<open>NaN\<close> counts as \<open>0\<close>.
  For an inconsistent comparator the language leaves the order to the
  implementation; \<open>array_sort\<close> then gives one of the permitted orders, which need
  not be the engine's, and the facts below about an order are stated for the
  default comparator on counts, which is consistent.
\<close>

fun positive :: "jsnum \<Rightarrow> bool" where
  "positive (Fin q) = (0 < q)"
| "positive PosInf = True"
| "positive NaN = False"
| "positive NegInf = False"

fun sort_insert :: "('a \<Rightarrow> 'a \<Rightarrow> jsnum) \<Rightarrow> 'a \<Rightarrow> 'a list \<Rightarrow> 'a list" where
  "sort_insert cmp x [] = [x]"
| "sort_insert cmp x (y # ys) =
     (if positive (cmp x y) then y # sort_insert cmp x ys else x # y # ys)"

definition array_sort :: "('a \<Rightarrow> 'a \<Rightarrow> jsnum) \<Rightarrow> 'a list \<Rightarrow> 'a list" where
  "array_sort cmp xs = foldr (sort_insert cmp) xs []"

text \<open>
  The default comparator:
  \<^verbatim>\<open>
  (a, b) => {
    if (b.votes !== a.votes) return b.votes - a.votes;
    return (candidateIndex.get(a.id) ?? 0) - (candidateIndex.get(b.id) ?? 0);
  }
  \<close>
  Subtraction converts an inherited function or object to \<open>NaN\<close>. The two
  differences are kept exact: \<open>sort\<close> reads only the sign of the result, and
  the difference of two doubles, rounded, has the sign of the exact difference.
\<close>

fun votes_minus :: "vote_field \<Rightarrow> vote_field \<Rightarrow> jsnum" where
  "votes_minus (Count m) (Count n) = Fin (of_nat m - of_nat n)"
| "votes_minus x y = NaN"

definition index_of :: "election \<Rightarrow> string \<Rightarrow> nat" where
  "index_of e k = (case candidateIndex e k of Some idx \<Rightarrow> idx | None \<Rightarrow> 0)"

definition default_compare :: "election \<Rightarrow> result \<Rightarrow> result \<Rightarrow> jsnum" where
  "default_compare e a b =
     (if r_votes b \<noteq> r_votes a then votes_minus (r_votes b) (r_votes a)
      else Fin (of_nat (index_of e (r_id a)) - of_nat (index_of e (r_id b))))"

text \<open>The record that the arrow function of \<open>candidateList.map\<close> builds for a candidate.\<close>

definition result_record :: "election \<Rightarrow> candidate \<Rightarrow> result" where
  "result_record e c =
     \<lparr> r_id = c_id c, r_name = c_name c, r_party = c_party c,
       r_votes = read_votes (votes e) (c_id c) \<rparr>"

definition getResults :: "election \<Rightarrow> (result \<Rightarrow> result \<Rightarrow> jsnum) option \<Rightarrow> result list" where
  "getResults e sortFn =
     (let results = map (result_record e) (candidateList e)
      in case sortFn of
           Some f \<Rightarrow> array_sort f results
         | None \<Rightarrow> array_sort (default_compare e) results)"

subsection \<open>getWinner\<close>

text \<open>\<open>None\<close> is \<open>null\<close>; \<open>Some w\<close> is the copy \<open>{ ...winner }\<close>.\<close>

definition getWinner :: "election \<Rightarrow> candidate option" where
  "getWinner e =
     (let results = getResults e None in
      if length results = 0 then None
      else if r_votes (hd results) = Count 0 then None
      else (case candidateById e (r_id (hd results)) of
              Some winner \<Rightarrow> Some winner
            | None \<Rightarrow> None))"

subsection \<open>Sequences of operations\<close>

datatype operation =
    RegisterVoter jsval
  | CastVote jsval string callback callback
  | GetResults "(result \<Rightarrow> result \<Rightarrow> jsnum) option"
  | GetWinner

fun step :: "election \<Rightarrow> operation \<Rightarrow> election" where
  "step e (RegisterVoter voter) = snd (registerVoter e voter)"
| "step e (CastVote voterId candidateId onSuccess onError) =
     after (castVote e voterId candidateId onSuccess onError)"
| "step e (GetResults sortFn) = e"
| "step e GetWinner = e"

definition run :: "election \<Rightarrow> operation list \<Rightarrow> election" where
  "run e ops = foldl step e ops"

section \<open>createVoteValidator\<close>

text \<open>
  \<open>rules\<close> is \<open>None\<close> when the argument is falsy. \<open>requiredFields\<close> is \<open>None\<close>
  when that property is not an array; its elements are property names.
\<close>

record rules =
  minAge :: jsval
  requiredFields :: "string list option"

datatype validation = Valid | Invalid string

text \<open>The \<open>for\<close> loop: the first required field whose value is missing.\<close>

fun first_missing :: "jsval \<Rightarrow> string list \<Rightarrow> string option" where
  "first_missing voter [] = None"
| "first_missing voter (field # rest) =
     (let v = get_prop voter field in
      if v = Undefined \<or> v = Null then Some field
      else if typeof v = TString \<and> js_length v = 0 then Some field
      else first_missing voter rest)"

definition createVoteValidator :: "rules option \<Rightarrow> jsval \<Rightarrow> validation" where
  "createVoteValidator rs =
     (let min_age = (case rs of Some r \<Rightarrow> finite_or (minAge r) 18 | None \<Rightarrow> 18);
          required = (case rs of
                        Some r \<Rightarrow> (case requiredFields r of Some fs \<Rightarrow> fs | None \<Rightarrow> [])
                      | None \<Rightarrow> [])
      in (\<lambda>voter.
            if \<not> truthy voter \<or> typeof voter \<noteq> TObject then Invalid ''invalid voter''
            else case first_missing voter required of
                   Some field \<Rightarrow> Invalid (''missing field: '' @ field)
                 | None \<Rightarrow>
                     if \<not> isFinite (get_prop voter ''age'')
                          \<or> num_lt (get_prop voter ''age'') min_age
                     then Invalid ''underage''
                     else Valid))"

section \<open>The election's objects on a heap\<close>

text \<open>
  Whether a caller can reach the closure's objects through a returned value
  depends on which objects are new. For that the objects are placed on a heap:
  a list of cells, an address being an index and an object literal, an array
  literal, \<open>slice\<close> and \<open>map\<close> each allocating at the end. A candidate object, the
  tally object, a result record and an array of references are the kinds of
  cell. The closure holds the address of its private roster array (the copy
  made by \<open>candidates.slice()\<close>, whose elements are the caller's candidate
  objects) and of the tally object; its two \<open>Set\<close>s hold primitives.
\<close>

datatype cell =
    CandidateObj candidate
  | TallyObj tally
  | ResultObj result
  | ArrayObj "nat list"

type_synonym heap = "cell list"

definition alloc :: "heap \<Rightarrow> cell \<Rightarrow> heap \<times> nat" where
  "alloc h c = (h @ [c], length h)"

fun alloc_all :: "heap \<Rightarrow> cell list \<Rightarrow> heap \<times> nat list" where
  "alloc_all h [] = (h, [])"
| "alloc_all h (c # cs) =
     (case alloc h c of (h1, a) \<Rightarrow>
        (case alloc_all h1 cs of (h2, as) \<Rightarrow> (h2, a # as)))"

definition candidate_at :: "heap \<Rightarrow> nat \<Rightarrow> candidate option" where
  "candidate_at h a =
     (if a < length h then (case h ! a of CandidateObj c \<Rightarrow> Some c | _ \<Rightarrow> None) else None)"

definition tally_at :: "heap \<Rightarrow> nat \<Rightarrow> tally option" where
  "tally_at h a =
     (if a < length h then (case h ! a of TallyObj t \<Rightarrow> Some t | _ \<Rightarrow> None) else None)"

definition result_at :: "heap \<Rightarrow> nat \<Rightarrow> result option" where
  "result_at h a =
     (if a < length h then (case h ! a of ResultObj r \<Rightarrow> Some r | _ \<Rightarrow> None) else None)"

definition array_at :: "heap \<Rightarrow> nat \<Rightarrow> nat list option" where
  "array_at h a =
     (if a < length h then (case h ! a of ArrayObj as \<Rightarrow> Some as | _ \<Rightarrow> None) else None)"

record closure =
  candidateList_ref :: nat
  votes_ref :: nat
  registered :: "jsval list"
  voted :: "jsval list"

text \<open>
  The roster as the closure reaches it: the elements of its array with the
  candidate object each refers to. \<open>None\<close> is a heap on which the closure's
  addresses do not hold objects of the right kind, which no run produces.
\<close>

definition roster_at :: "heap \<Rightarrow> closure \<Rightarrow> (nat \<times> candidate) list option" where
  "roster_at h cl =
     (case array_at h (candidateList_ref cl) of
        None \<Rightarrow> None
      | Some as \<Rightarrow> those (map (\<lambda>a. map_option (Pair a) (candidate_at h a)) as))"

text \<open>The election state that closure and heap hold together.\<close>

definition state_of :: "heap \<Rightarrow> closure \<Rightarrow> election option" where
  "state_of h cl =
     (case roster_at h cl of
        None \<Rightarrow> None
      | Some rs \<Rightarrow>
          (case tally_at h (votes_ref cl) of
             None \<Rightarrow> None
           | Some t \<Rightarrow>
               Some \<lparr> candidateList = map snd rs, votes = t,
                      registeredVoters = registered cl, votedVoters = voted cl \<rparr>))"

text \<open>
  \<open>createElection\<close>: the argument is the address of the caller's array, if it is
  one. \<open>slice()\<close> and \<open>{}\<close> allocate.
\<close>

definition createElection_h :: "heap \<Rightarrow> nat option \<Rightarrow> heap \<times> closure" where
  "createElection_h h candidates =
     (let elems = (case candidates of
                     None \<Rightarrow> []
                   | Some a \<Rightarrow> (case array_at h a of Some as \<Rightarrow> as | None \<Rightarrow> []))
      in case alloc h (ArrayObj elems) of (h1, list_ref) \<Rightarrow>
           (case alloc h1 (TallyObj []) of (h2, tally_ref) \<Rightarrow>
              (h2, \<lparr> candidateList_ref = list_ref, votes_ref = tally_ref,
                     registered = [], voted = [] \<rparr>)))"

text \<open>
  \<open>tallyPure\<close> called with a reference to a tally object: the object literal
  \<open>{ ...safe, [candidateId]: current + 1 }\<close> is a new object, and nothing is
  assigned to \<open>safe\<close>.
\<close>

definition tallyPure_h :: "heap \<Rightarrow> nat \<Rightarrow> string \<Rightarrow> (heap \<times> nat) option" where
  "tallyPure_h h currentTally candidateId =
     (case tally_at h currentTally of
        None \<Rightarrow> None
      | Some safe \<Rightarrow> Some (alloc h (TallyObj (tallyPure_votes safe candidateId))))"

text \<open>
  \<open>getResults\<close>: \<open>map\<close> builds one new record per roster element and a new
  array of them; \<open>sort\<close> reorders that array in place, the comparator reading
  the records, and returns it. A record cell holds its \<open>votes\<close> field by value.
  For a count, a primitive, that is what the record holds. An inherited value
  is a reference to an object that is no cell of this heap (a built-in function
  or \<open>Object.prototype\<close>), and a caller who gets the record can write to that
  object; so the facts proved about this heap are stated for elections none of
  whose records reads an inherited property (\<open>no_inherited_votes\<close>).
\<close>

definition getResults_h ::
  "heap \<Rightarrow> closure \<Rightarrow> (result \<Rightarrow> result \<Rightarrow> jsnum) option \<Rightarrow> (heap \<times> nat) option" where
  "getResults_h h cl sortFn =
     (case state_of h cl of
        None \<Rightarrow> None
      | Some e \<Rightarrow>
          (let recs = map (result_record e) (candidateList e);
               cmp = (case sortFn of Some f \<Rightarrow> f | None \<Rightarrow> default_compare e)
           in case alloc_all h (map ResultObj recs) of (h1, refs) \<Rightarrow>
                (case alloc h1 (ArrayObj refs) of (h2, results) \<Rightarrow>
                   Some (h2[results :=
                           ArrayObj (map fst (array_sort (\<lambda>x y. cmp (snd x) (snd y))
                                                (zip refs recs)))],
                         results))))"

text \<open>
  \<open>getWinner\<close>: \<open>candidateById.get\<close> yields the roster's own candidate object;
  \<open>{ ...winner }\<close> is a new object with the same fields. The second component
  is the address returned, \<open>None\<close> for \<open>null\<close>.
\<close>

definition candidateById_h :: "heap \<Rightarrow> closure \<Rightarrow> string \<rightharpoonup> nat" where
  "candidateById_h h cl =
     (case roster_at h cl of
        None \<Rightarrow> Map.empty
      | Some rs \<Rightarrow> js_Map (map (\<lambda>(a, c). (c_id c, a)) rs))"

definition getWinner_h :: "heap \<Rightarrow> closure \<Rightarrow> (heap \<times> nat option) option" where
  "getWinner_h h cl =
     (case getResults_h h cl None of
        None \<Rightarrow> None
      | Some (h1, results) \<Rightarrow>
          (case array_at h1 results of
             None \<Rightarrow> None
           | Some refs \<Rightarrow>
               if length refs = 0 then Some (h1, None)
               else (case result_at h1 (hd refs) of
                       None \<Rightarrow> None
                     | Some r0 \<Rightarrow>
                         if r_votes r0 = Count 0 then Some (h1, None)
                         else (case candidateById_h h1 cl (r_id r0) of
                                 None \<Rightarrow> Some (h1, None)
                               | Some winner \<Rightarrow>
                                   (case candidate_at h1 winner of
                                      None \<Rightarrow> None
                                    | Some w \<Rightarrow>
                                        (case alloc h1 (CandidateObj w) of
                                           (h2, copy) \<Rightarrow> Some (h2, Some copy)))))))"

text \<open>
  What a caller may do to a heap of length \<open>n\<close> at the start of a call, given
  only the values the call returned: write to, or allocate, cells from \<open>n\<close> on.
\<close>

definition same_below :: "nat \<Rightarrow> heap \<Rightarrow> heap \<Rightarrow> bool" where
  "same_below n h h' = (n \<le> length h \<and> n \<le> length h' \<and> take n h' = take n h)"

text \<open>
  The addresses the closure holds or finds in its roster array: the objects a
  caller must not be able to reach through a returned value.
\<close>

definition owned :: "heap \<Rightarrow> closure \<Rightarrow> nat set" where
  "owned h cl =
     insert (candidateList_ref cl) (insert (votes_ref cl)
       (case array_at h (candidateList_ref cl) of Some as \<Rightarrow> set as | None \<Rightarrow> {}))"

subsection \<open>Properties assigned to \<open>Object.prototype\<close>\<close>

text \<open>
  \<open>Object.prototype\<close> is one object, the prototype of every plain object of the
  program and so of the tally object. Whoever holds a reference to it can
  assign properties to it: \<open>added\<close> is the list of the properties assigned so
  far. \<open>prototype_get added k\<close> is what a plain object without an own property
  \<open>k\<close> then yields for \<open>k\<close>: an assigned property before a built-in one, except
  for the accessor \<open>__proto__\<close>, which an assignment does not replace.
  \<open>votes_or_zero added t k\<close> is the value of \<open>votes[c.id] ?? 0\<close> in \<open>getResults\<close>
  for the tally \<open>t\<close> and the id \<open>k\<close>. With nothing assigned these are
  \<open>inherited\<close> and \<open>read_votes\<close> (\<open>votes_or_zero_read_votes\<close> below).
\<close>

definition prototype_get :: "(string \<times> jsval) list \<Rightarrow> string \<Rightarrow> jsval" where
  "prototype_get added k =
     (if k = ''__proto__'' then inherited k
      else case map_of added k of Some v \<Rightarrow> v | None \<Rightarrow> inherited k)"

definition votes_or_zero :: "(string \<times> jsval) list \<Rightarrow> tally \<Rightarrow> string \<Rightarrow> jsval" where
  "votes_or_zero added t k =
     (let v = (case map_of t k of
                 Some n \<Rightarrow> JNum (Fin (of_nat n))
               | None \<Rightarrow> prototype_get added k)
      in if v = Undefined \<or> v = Null then JNum (Fin 0) else v)"

section \<open>Example elections\<close>

text \<open>The election of the module's documentation, cut down to one candidate and one voter.\<close>

definition demo_candidate :: candidate where
  "demo_candidate = \<lparr> c_id = ''C1'', c_name = ''Sarpanch Ram'', c_party = ''Janata'' \<rparr>"

definition demo_voter :: jsval where
  "demo_voter = JObj [(''id'', JStr ''V1''), (''name'', JStr ''Mohan''), (''age'', JNum (Fin 25))]"

definition demo_election :: election where
  "demo_election = createElection (Some [demo_candidate])"

definition demo_registered :: election where
  "demo_registered = run demo_election [RegisterVoter demo_voter]"

definition demo_voted :: election where
  "demo_voted = run demo_election
     [RegisterVoter demo_voter, CastVote (JStr ''V1'') ''C1'' None None]"

text \<open>A roster whose only candidate is named like a property of \<open>Object.prototype\<close>.\<close>

definition constructor_candidate :: candidate where
  "constructor_candidate = \<lparr> c_id = ''constructor'', c_name = ''Pradhan Sita'', c_party = ''Lok'' \<rparr>"

definition constructor_election :: election where
  "constructor_election = createElection (Some [constructor_candidate])"

text \<open>
  The election \<open>demo_voted\<close> on a heap: the caller's candidate object and array,
  the closure's copy of the array, and the tally object.
\<close>

definition demo_heap :: heap where
  "demo_heap = [CandidateObj demo_candidate, ArrayObj [0], ArrayObj [0], TallyObj [(''C1'', 1)]]"

definition demo_closure :: closure where
  "demo_closure = \<lparr> candidateList_ref = 2, votes_ref = 3,
                     registered = [JStr ''V1''], voted = [JStr ''V1''] \<rparr>"

text \<open>
  A roster of two candidates, the first with the id \<open>__proto__\<close>, and no vote
  cast.
\<close>

definition proto_election :: election where
  "proto_election = createElection (Some
     [\<lparr> c_id = ''__proto__'', c_name = ''Pradhan Sita'', c_party = ''Lok'' \<rparr>,
      \<lparr> c_id = ''C2'', c_name = ''Sarpanch Ram'', c_party = ''Janata'' \<rparr>])"

section \<open>Notions of the specification\<close>

text \<open>The one-vote-per-voter invariant of the data model.\<close>

definition one_vote_inv :: "election \<Rightarrow> bool" where
  "one_vote_inv e =
     (distinct (votedVoters e) \<and> set (votedVoters e) \<subseteq> set (registeredVoters e))"

text \<open>
  The validator's age check in the specification's words, \<open>age \<ge> minAge\<close>, read
  on numbers as JavaScript's \<open>>=\<close> reads it: \<open>Infinity\<close> is at least any finite
  bound, \<open>NaN\<close> is not.
\<close>

definition spec_age_ok :: "jsval \<Rightarrow> rat \<Rightarrow> bool" where
  "spec_age_ok age m =
     (case age of JNum (Fin q) \<Rightarrow> m \<le> q | JNum PosInf \<Rightarrow> True | _ \<Rightarrow> False)"

text \<open>
  The count of accepted votes of a candidate; the condition under which no
  record of \<open>getResults\<close> reads an inherited property (every roster id is either
  no property name of \<open>Object.prototype\<close> or has an own count); and the order
  of the default results: more votes first, then the smaller roster index.
\<close>

definition count_of :: "election \<Rightarrow> candidate \<Rightarrow> nat" where
  "count_of e c = (case map_of (votes e) (c_id c) of Some n \<Rightarrow> n | None \<Rightarrow> 0)"

definition no_inherited_votes :: "election \<Rightarrow> bool" where
  "no_inherited_votes e =
     list_all (\<lambda>c. inherited (c_id c) = Undefined \<or> map_of (votes e) (c_id c) \<noteq> None)
       (candidateList e)"

definition ranks_before :: "election \<Rightarrow> result \<Rightarrow> result \<Rightarrow> bool" where
  "ranks_before e a b =
     (case (r_votes a, r_votes b) of
        (Count m, Count n) \<Rightarrow> n < m \<or> (m = n \<and> index_of e (r_id a) \<le> index_of e (r_id b))
      | _ \<Rightarrow> False)"

section \<open>Facts about rounding\<close>

text \<open>
  An integer of magnitude up to \<open>2^53\<close> is a double, and the double nearest to a
  positive integer is a positive integer; \<open>2^53 + 1\<close> is no double and rounds to
  \<open>2^53\<close>; a rational of magnitude at most \<open>max_double + 1\<close> rounds to a
  finite double.
\<close>

lemma round_half_even_of_int: "round_half_even (of_int k) = k"
  by (simp add: round_half_even_def)

lemma pow2_pos: "0 < pow2 k"
  by (simp add: pow2_def)

lemma binade_int:
  assumes "1 \<le> (n::int)"
  shows "0 \<le> binade (of_int n) \<and> 2 ^ nat (binade (of_int n)) \<le> n \<and> n < 2 ^ (nat (binade (of_int n)) + 1)"
proof -
  from assms have b: "2 ^ nat (bitlen n - 1) \<le> n \<and> n < 2 ^ nat (bitlen n)"
    by (intro bitlen_bounds) simp
  from assms have p: "1 \<le> bitlen n"
    by (simp add: bitlen_alt_def)
  have e: "binade (of_int n) = bitlen n - 1"
    using assms by (simp add: binade_def)
  from p have "nat (bitlen n) = nat (bitlen n - 1) + 1"
    by simp
  with b e p show ?thesis
    by simp
qed

lemma round_double_int:
  assumes "1 \<le> (n::int)"
  shows "\<exists>m. 1 \<le> m \<and> round_double (of_int n) = of_int m"
    and "n \<le> 2 ^ 53 \<Longrightarrow> round_double (of_int n) = of_int n"
proof -
  let ?e = "binade (of_int n)"
  from binade_int [OF assms] have e0: "0 \<le> ?e" and lo: "2 ^ nat ?e \<le> n"
    by simp_all
  have nz: "(of_int n :: rat) \<noteq> 0" and ab: "\<bar>of_int n :: rat\<bar> = of_int n"
    and sg: "sgn (of_int n :: rat) = 1"
    using assms by simp_all
  have mx: "max ?e (- 1022) = ?e"
    using e0 by simp
  have rd: "round_double (of_int n) =
      of_int (round_half_even (of_int n / pow2 (?e - 52))) * pow2 (?e - 52)"
    using assms e0 by (simp add: round_double_def Let_def max_def)
  have small: "round_double (of_int n) = of_int n" if "?e \<le> 52"
  proof -
    from that have p: "pow2 (?e - 52) = 1 / 2 ^ nat (52 - ?e)"
      by (cases "?e = 52") (simp_all add: pow2_def)
    have "(of_int n :: rat) / pow2 (?e - 52) = of_int (n * 2 ^ nat (52 - ?e))"
      by (simp add: p)
    then have "round_half_even (of_int n / pow2 (?e - 52)) = n * 2 ^ nat (52 - ?e)"
      by (simp only: round_half_even_of_int)
    then show ?thesis
      by (simp add: rd p)
  qed
  show "\<exists>m. 1 \<le> m \<and> round_double (of_int n) = of_int m"
  proof (cases "?e \<le> 52")
    case True
    with small assms show ?thesis by blast
  next
    case False
    then have p: "pow2 (?e - 52) = of_int (2 ^ nat (?e - 52))"
      by (simp add: pow2_def)
    let ?k = "round_half_even (of_int n / pow2 (?e - 52))"
    have "1 \<le> (of_int n :: rat) / pow2 (?e - 52)"
    proof -
      have "(2::int) ^ nat (?e - 52) \<le> 2 ^ nat ?e"
        by (rule power_increasing) simp_all
      from this lo have "(2::int) ^ nat (?e - 52) \<le> n"
        by (rule order_trans)
      then have "(of_int (2 ^ nat (?e - 52)) :: rat) \<le> of_int n"
        by (simp only: of_int_le_iff)
      then show ?thesis
        by (simp add: p)
    qed
    then have "1 \<le> \<lfloor>(of_int n :: rat) / pow2 (?e - 52)\<rfloor>"
      by (simp add: le_floor_iff)
    then have "1 \<le> ?k"
      by (simp add: round_half_even_def Let_def)
    moreover have "0 < (2::int) ^ nat (?e - 52)"
      by simp
    ultimately have "1 \<le> ?k * 2 ^ nat (?e - 52)"
      by (smt (verit) mult_le_cancel_left1 mult.commute)
    moreover have "round_double (of_int n) = of_int (?k * 2 ^ nat (?e - 52))"
      by (simp add: rd p)
    ultimately show ?thesis by blast
  qed
  show "round_double (of_int n) = of_int n" if le: "n \<le> 2 ^ 53"
  proof (cases "?e \<le> 52")
    case True
    then show ?thesis by (rule small)
  next
    case False
    then have ge: "(2::int) ^ 53 \<le> 2 ^ nat ?e"
      by (intro power_increasing) simp_all
    from lo le have pe: "(2::int) ^ nat ?e \<le> 2 ^ 53"
      by (rule order_trans)
    from ge lo have "(2::int) ^ 53 \<le> n"
      by (rule order_trans)
    with le have n: "n = 2 ^ 53"
      by simp
    have "(1::int) < 2"
      by simp
    from this pe have "nat ?e \<le> 53"
      by (rule power_le_imp_le_exp)
    with False have e: "?e = 53"
      by simp
    have p2: "pow2 (?e - 52) = 2"
      by (simp add: e pow2_def)
    have "(of_int n :: rat) / 2 = of_int (2 ^ 52)"
      by (simp add: n)
    then have "round_half_even (of_int n / 2) = 2 ^ 52"
      by (simp only: round_half_even_of_int)
    then have "round_double (of_int n) = of_int (2 ^ 52) * 2"
      by (simp only: rd p2)
    also have "\<dots> = of_int n"
      by (simp add: n)
    finally show ?thesis .
  qed
qed

lemma bitlen_eqI:
  assumes "2 ^ (w - 1) \<le> x" and "x < 2 ^ w" and "0 < w"
  shows "bitlen x = int w"
proof -
  have "(0::int) < 2 ^ (w - 1)"
    by simp
  from this assms(1) have x: "0 < x"
    by (rule less_le_trans)
  then have b: "2 ^ nat (bitlen x - 1) \<le> x \<and> x < 2 ^ nat (bitlen x)"
    by (rule bitlen_bounds)
  from x have p: "1 \<le> bitlen x"
    by (simp add: bitlen_alt_def)
  have two: "(1::int) < 2"
    by simp
  from b have "2 ^ nat (bitlen x - 1) \<le> x" ..
  from this assms(2) have "(2::int) ^ nat (bitlen x - 1) < 2 ^ w"
    by (rule le_less_trans)
  with two have 1: "nat (bitlen x - 1) < w"
    by (rule power_less_imp_less_exp)
  from b have "x < 2 ^ nat (bitlen x)" ..
  with assms(1) have "(2::int) ^ (w - 1) < 2 ^ nat (bitlen x)"
    by (rule le_less_trans)
  with two have 2: "w - 1 < nat (bitlen x)"
    by (rule power_less_imp_less_exp)
  from 1 2 p assms(3) show ?thesis
    by linarith
qed

lemma round_double_above_2_53: "round_double 9007199254740993 = 9007199254740992"
proof -
  have "bitlen 9007199254740993 = int 54"
    by (rule bitlen_eqI) simp_all
  then have e: "binade 9007199254740993 = 53"
    by (simp add: binade_def)
  have f: "\<lfloor>9007199254740993 / 2 :: rat\<rfloor> = 4503599627370496"
    by (rule floor_unique) simp_all
  show ?thesis
    by (simp add: round_double_def pow2_def round_half_even_def Let_def e f)
qed

lemma round_double_one_plus_tiny: "round_double (1 + 1 / 2 ^ 60) = 1"
proof -
  have "bitlen 1 = int 1"
    by (rule bitlen_eqI) simp_all
  moreover have "\<lfloor>1 + 1 / 2 ^ 60 :: rat\<rfloor> = 1"
    by (rule floor_unique) simp_all
  ultimately have e: "binade (1 + 1 / 2 ^ 60) = 0"
    by (simp add: binade_def)
  have f: "\<lfloor>(1 + 1 / 2 ^ 60) / (1 / 2 ^ 52) :: rat\<rfloor> = 2 ^ 52"
    by (rule floor_unique) simp_all
  have a: "\<bar>1 + 1 / 2 ^ 60 :: rat\<bar> = 1 + 1 / 2 ^ 60" and g: "sgn (1 + 1 / 2 ^ 60 :: rat) = 1"
    by simp_all
  have nz: "(1 + 1 / 2 ^ 60 :: rat) \<noteq> 0"
    by simp
  have p: "pow2 (max 0 (- 1022) - 52) = 1 / 2 ^ 52"
    by (simp add: pow2_def)
  have "round_half_even ((1 + 1 / 2 ^ 60) / (1 / 2 ^ 52)) = 2 ^ 52"
    unfolding round_half_even_def Let_def f by simp
  then show ?thesis
    unfolding round_double_def Let_def e a g p using nz by simp
qed

lemma pow2_powi: "pow2 k = 2 powi k"
  by (simp add: pow2_def power_int_def field_simps)

lemma pow2_add: "pow2 (a + b) = pow2 a * pow2 b"
  by (simp add: pow2_powi power_int_add)

lemma pow2_mono: "a \<le> b \<Longrightarrow> pow2 a \<le> pow2 b"
  by (simp add: pow2_powi power_int_increasing)

lemma pow2_nat: "pow2 (int n) = 2 ^ n"
  by (simp add: pow2_def)

lemma round_half_even_le: "round_half_even y \<le> \<lfloor>y\<rfloor> + 1"
  by (simp add: round_half_even_def Let_def)

lemma round_half_even_ge: "\<lfloor>y\<rfloor> \<le> round_half_even y"
  by (simp add: round_half_even_def Let_def)

lemma round_half_even_down: "y - of_int \<lfloor>y\<rfloor> < 1 / 2 \<Longrightarrow> round_half_even y = \<lfloor>y\<rfloor>"
  by (simp add: round_half_even_def Let_def)

lemma binade_bounds:
  assumes "1 \<le> x"
  shows "0 \<le> binade x \<and> pow2 (binade x) \<le> x \<and> x < pow2 (binade x + 1)"
proof -
  let ?n = "\<lfloor>x\<rfloor>"
  from assms have n: "1 \<le> ?n"
    by simp
  have e: "binade x = binade (of_int ?n)"
    using assms n by (simp add: binade_def)
  from binade_int [OF n] have e0: "0 \<le> binade x" and lo: "2 ^ nat (binade x) \<le> ?n"
    and hi: "?n < 2 ^ (nat (binade x) + 1)"
    by (simp_all add: e)
  from lo have "(of_int (2 ^ nat (binade x)) :: rat) \<le> of_int ?n"
    by (simp only: of_int_le_iff)
  also have "\<dots> \<le> x"
    by simp
  finally have 1: "pow2 (binade x) \<le> x"
    using e0 by (simp add: pow2_def)
  from hi have "?n + 1 \<le> 2 ^ (nat (binade x) + 1)"
    by simp
  then have u: "(of_int (?n + 1) :: rat) \<le> of_int (2 ^ (nat (binade x) + 1))"
    by (simp only: of_int_le_iff)
  have "x < of_int (?n + 1)"
    by simp linarith
  from this u have "x < of_int (2 ^ (nat (binade x) + 1))"
    by (rule less_le_trans)
  moreover have "pow2 (binade x + 1) = of_int (2 ^ (nat (binade x) + 1))"
    using e0 by (simp add: pow2_def nat_add_distrib)
  ultimately have 2: "x < pow2 (binade x + 1)"
    by simp
  from e0 1 2 show ?thesis by simp
qed

lemma round_scaled_le:
  assumes u: "0 < u" and k: "round_half_even (a / u) \<le> m"
  shows "of_int (round_half_even (a / u)) * u \<le> of_int m * u"
proof -
  from k have "(of_int (round_half_even (a / u)) :: rat) \<le> of_int m"
    by (simp only: of_int_le_iff)
  with u show ?thesis
    by (simp add: mult_right_mono)
qed

lemma round_double_abs:
  assumes "x \<noteq> 0"
  shows "\<bar>round_double x\<bar> =
     of_int (round_half_even (\<bar>x\<bar> / pow2 (max (binade \<bar>x\<bar>) (- 1022) - 52)))
       * pow2 (max (binade \<bar>x\<bar>) (- 1022) - 52)"
proof -
  let ?u = "pow2 (max (binade \<bar>x\<bar>) (- 1022) - 52)"
  have u: "0 < ?u" by (rule pow2_pos)
  with assms have "0 \<le> \<bar>x\<bar> / ?u"
    by simp
  then have "0 \<le> \<lfloor>\<bar>x\<bar> / ?u\<rfloor>"
    by simp
  from this round_half_even_ge [of "\<bar>x\<bar> / ?u"] have "0 \<le> round_half_even (\<bar>x\<bar> / ?u)"
    by (rule order_trans)
  then have "(0::rat) \<le> of_int (round_half_even (\<bar>x\<bar> / ?u))"
    by simp
  with u have nn: "0 \<le> of_int (round_half_even (\<bar>x\<bar> / ?u)) * ?u"
    by simp
  have "round_double x = sgn x * (of_int (round_half_even (\<bar>x\<bar> / ?u)) * ?u)"
    using assms by (simp add: round_double_def Let_def)
  then have "\<bar>round_double x\<bar> = \<bar>sgn x\<bar> * \<bar>of_int (round_half_even (\<bar>x\<bar> / ?u)) * ?u\<bar>"
    by (simp only: abs_mult)
  also have "\<bar>sgn x\<bar> = 1"
    using assms by (simp add: abs_sgn_eq)
  finally show ?thesis
    using nn by simp
qed

lemma max_double_bounds: "2 \<le> max_double" "pow2 1023 \<le> max_double" "max_double + 1 < pow2 1024"
  by (simp_all add: max_double_def pow2_def)

lemma round_double_no_overflow:
  assumes "\<bar>x\<bar> \<le> max_double + 1"
  shows "\<bar>round_double x\<bar> \<le> max_double"
proof (cases "x = 0")
  case True
  then show ?thesis
    using max_double_bounds(1) by (simp add: round_double_def)
next
  case nz: False
  let ?a = "\<bar>x\<bar>"
  let ?e = "max (binade ?a) (- 1022)"
  let ?u = "pow2 (?e - 52)"
  let ?k = "round_half_even (?a / ?u)"
  have u: "0 < ?u" by (rule pow2_pos)
  have r: "\<bar>round_double x\<bar> = of_int ?k * ?u"
    using nz by (rule round_double_abs)
  show ?thesis
  proof (cases "1 \<le> ?a")
    case False
    then have "binade ?a = - bitlen (\<lceil>1 / ?a\<rceil> - 1)"
      by (simp add: binade_def)
    then have "binade ?a \<le> 0"
      by (simp add: bitlen_nonneg)
    then have "?e - 52 \<le> 0"
      by simp
    then have "?u \<le> pow2 0"
      by (rule pow2_mono)
    then have u1: "?u \<le> 1"
      by (simp add: pow2_def)
    have "(of_int ?k :: rat) \<le> of_int (\<lfloor>?a / ?u\<rfloor> + 1)"
      using round_half_even_le [of "?a / ?u"] by (simp only: of_int_le_iff)
    also have "\<dots> \<le> ?a / ?u + 1"
      by simp
    finally have "of_int ?k * ?u \<le> (?a / ?u + 1) * ?u"
      using u by (simp add: mult_right_mono)
    also have "\<dots> = ?a + ?u"
      using u by (simp add: field_simps)
    also have "\<dots> \<le> 2"
      using False u1 by simp
    finally show ?thesis
      using max_double_bounds(1) r by simp
  next
    case True
    from binade_bounds [OF True] have e0: "0 \<le> binade ?a" and lo: "pow2 (binade ?a) \<le> ?a"
      and hi: "?a < pow2 (binade ?a + 1)"
      by simp_all
    from e0 have e: "?e = binade ?a"
      by simp
    have e_top: "binade ?a \<le> 1023"
    proof (rule ccontr)
      assume "\<not> binade ?a \<le> 1023"
      then have "1024 \<le> binade ?a" by simp
      then have "pow2 1024 \<le> pow2 (binade ?a)" by (rule pow2_mono)
      with lo assms max_double_bounds(3) show False by simp
    qed
    have split: "pow2 (binade ?a + 1) = 2 ^ 53 * ?u"
    proof -
      have "binade ?a + 1 = 53 + (binade ?a - 52)"
        by simp
      then have "pow2 (binade ?a + 1) = pow2 (53 + (binade ?a - 52))"
        by (simp only:)
      also have "\<dots> = pow2 53 * pow2 (binade ?a - 52)"
        by (rule pow2_add)
      finally show ?thesis
        by (simp add: e pow2_def)
    qed
    show ?thesis
    proof (cases "binade ?a \<le> 1022")
      case True
      from hi split have "?a < 2 ^ 53 * ?u"
        by simp
      with u have "?a / ?u < 2 ^ 53"
        by (simp add: pos_divide_less_eq)
      then have "?a / ?u < of_int (2 ^ 53)"
        by simp
      then have "\<lfloor>?a / ?u\<rfloor> < 2 ^ 53"
        by (simp only: floor_less_iff)
      then have "\<lfloor>?a / ?u\<rfloor> + 1 \<le> 2 ^ 53"
        by linarith
      with round_half_even_le [of "?a / ?u"] have "?k \<le> 2 ^ 53"
        by (rule order_trans)
      with u have "of_int ?k * ?u \<le> of_int (2 ^ 53) * ?u"
        by (rule round_scaled_le)
      also have "\<dots> = pow2 (binade ?a + 1)"
        by (simp add: split)
      also have "\<dots> \<le> pow2 1023"
        using True by (intro pow2_mono) simp
      finally show ?thesis
        using max_double_bounds(2) r by simp
    next
      case False
      with e_top have top: "binade ?a = 1023"
        by simp
      then have uv: "?u = 2 ^ 971"
        by (simp add: pow2_def)
      from assms have "?a / 2 ^ 971 \<le> (max_double + 1) / 2 ^ 971"
        by (simp add: divide_right_mono)
      also have "\<dots> = of_int (2 ^ 53 - 1) + 1 / 2 ^ 971"
        by (simp add: max_double_def field_simps)
      finally have y: "?a / ?u \<le> of_int (2 ^ 53 - 1) + 1 / 2 ^ 971"
        by (simp only: uv)
      then have "?a / ?u < of_int (2 ^ 53 - 1) + 1"
        by (rule le_less_trans) simp
      then have f: "\<lfloor>?a / ?u\<rfloor> \<le> 2 ^ 53 - 1"
        by (simp add: floor_less_iff)
      have "?k \<le> 2 ^ 53 - 1"
      proof (cases "\<lfloor>?a / ?u\<rfloor> = 2 ^ 53 - 1")
        case True
        with y have "?a / ?u - of_int \<lfloor>?a / ?u\<rfloor> \<le> 1 / 2 ^ 971"
          by simp
        also have "(1::rat) / 2 ^ 971 < 1 / 2"
          by simp
        finally have "?k = \<lfloor>?a / ?u\<rfloor>"
          by (rule round_half_even_down)
        with True show ?thesis by simp
      next
        case False
        with f have "\<lfloor>?a / ?u\<rfloor> + 1 \<le> 2 ^ 53 - 1"
          by linarith
        with round_half_even_le [of "?a / ?u"] show ?thesis
          by (rule order_trans)
      qed
      with u have "of_int ?k * ?u \<le> of_int (2 ^ 53 - 1) * ?u"
        by (rule round_scaled_le)
      also have "\<dots> = max_double"
        by (simp add: uv max_double_def)
      finally show ?thesis
        using r by simp
    qed
  qed
qed

lemma round_double_one: "round_double 1 = 1"
  using round_double_int(2) [of 1] by simp

lemma round_double_2_53: "round_double 9007199254740992 = 9007199254740992"
  using round_double_int(2) [of 9007199254740992] by simp

text \<open>The sum of a finite double and 1 is a finite double.\<close>

lemma double_plus_one_finite:
  assumes "\<bar>q\<bar> \<le> max_double"
  shows "to_double (q + 1) = Fin (round_double (q + 1))"
proof -
  have "\<bar>q + 1\<bar> \<le> \<bar>q\<bar> + 1"
    by simp
  with assms have "\<bar>q + 1\<bar> \<le> max_double + 1"
    by simp
  then have "\<bar>round_double (q + 1)\<bar> \<le> max_double"
    by (rule round_double_no_overflow)
  also have "max_double < 2 ^ 1024"
    using max_double_bounds(3) by (simp add: pow2_def)
  finally have "\<not> 2 ^ 1024 \<le> \<bar>round_double (q + 1)\<bar>"
    by simp
  then show ?thesis
    by (simp add: to_double_def Let_def)
qed

lemma count_plus_one_rat: "of_nat (count_plus_one n) = round_double (of_nat n + 1)"
proof -
  have "1 \<le> int n + 1"
    by simp
  from round_double_int(1) [OF this]
  obtain m where m: "1 \<le> m" and r: "round_double (of_int (int n + 1)) = of_int m"
    by blast
  have "(of_int (int n + 1) :: rat) = of_nat n + 1"
    by simp
  with r have r': "round_double (of_nat n + 1) = of_int m"
    by simp
  then have "count_plus_one n = nat m"
    by (simp add: count_plus_one_def)
  with m r' show ?thesis
    by simp
qed

lemma round_double_count:
  assumes "n < 2 ^ 53"
  shows "round_double (of_nat n + 1) = of_nat n + 1"
proof -
  from assms have "int n < 2 ^ 53"
    by (simp add: of_nat_less_iff [of n "2 ^ 53", where ?'a = int, simplified])
  then have le: "int n + 1 \<le> 2 ^ 53"
    by simp
  have "1 \<le> int n + 1"
    by simp
  from round_double_int(2) [OF this le]
  show ?thesis
    by simp
qed

lemma count_plus_one_small: "n < 2 ^ 53 \<Longrightarrow> count_plus_one n = n + 1"
proof -
  assume "n < 2 ^ 53"
  then have "round_double (of_nat n + 1) = of_int (int n + 1)"
    by (simp add: round_double_count)
  then show ?thesis
    by (simp add: count_plus_one_def del: of_int_add)
qed

section \<open>Basic facts\<close>

lemmas demo_defs = demo_candidate_def demo_voter_def demo_election_def demo_registered_def
  demo_voted_def constructor_candidate_def constructor_election_def

lemmas eval_defs = run_def createElection_def registerVoter_def castVote_def isValidVoter_def
  set_has_def set_add_def candidateById_def js_Map_def tallyPure_votes_def count_plus_one_small
  inherited_def
  object_prototype_functions_def

lemma finite_or_inherited: "finite_or (inherited k) d = d"
  by (simp add: inherited_def)

lemma finite_or_case: "finite_or v d = (case v of JNum (Fin q) \<Rightarrow> q | _ \<Rightarrow> d)"
proof (cases v)
  case (JNum n)
  then show ?thesis by (cases n) auto
qed auto

lemma update_map_snd:
  "AList.update k (f v) (map (\<lambda>(a, n). (a, f n)) t) =
     map (\<lambda>(a, n). (a, f n)) (AList.update k v t)"
  by (induction t) auto

lemma map_of_map_snd:
  "map_of (map (\<lambda>(a, n). (a, f n)) t) k = map_option f (map_of t k)"
  by (induction t) auto

text \<open>The count-level \<open>tallyPure_votes\<close> is \<open>tallyPure\<close> on the tally object.\<close>

lemma tallyPure_tally_obj: "tallyPure (tally_obj t) c = tally_obj (tallyPure_votes t c)"
proof -
  define n where "n = (case map_of t c of Some n \<Rightarrow> n | None \<Rightarrow> 0)"
  have safe: "(if truthy (tally_obj t) \<and> typeof (tally_obj t) = TObject
               then tally_obj t else JObj []) = tally_obj t"
    by (simp add: tally_obj_def)
  have cur: "finite_or (get_prop (tally_obj t) c) 0 = of_nat n"
    by (cases "map_of t c") (simp_all add: n_def tally_obj_def map_of_map_snd finite_or_inherited)
  have 1: "tallyPure (tally_obj t) c =
      JObj (AList.update c (JNum (Fin (round_double (of_nat n + 1))))
              (map (\<lambda>(a, n). (a, JNum (Fin (of_nat n)))) t))"
    unfolding tallyPure_def Let_def safe cur by (simp add: tally_obj_def)
  have 2: "tally_obj (tallyPure_votes t c) =
      JObj (map (\<lambda>(a, n). (a, JNum (Fin (of_nat n)))) (AList.update c (count_plus_one n) t))"
    by (simp add: tally_obj_def tallyPure_votes_def n_def)
  have 3: "AList.update c (JNum (Fin (of_nat (count_plus_one n))))
             (map (\<lambda>(a, n). (a, JNum (Fin (of_nat n)))) t) =
           map (\<lambda>(a, n). (a, JNum (Fin (of_nat n)))) (AList.update c (count_plus_one n) t)"
    by (rule update_map_snd [of c "\<lambda>n. JNum (Fin (of_nat n))"])
  show ?thesis
    unfolding 1 2 count_plus_one_rat [symmetric] 3 ..
qed

lemma votes_or_zero_read_votes:
  "votes_or_zero [] t k =
     (case read_votes t k of Count n \<Rightarrow> JNum (Fin (of_nat n)) | Inherited j \<Rightarrow> inherited j)"
proof (cases "map_of t k")
  case None
  have "prototype_get [] k = inherited k"
    by (simp add: prototype_get_def)
  with None show ?thesis
    by (cases "inherited k") (simp_all add: votes_or_zero_def read_votes_def Let_def)
next
  case (Some n)
  then show ?thesis
    by (simp add: votes_or_zero_def read_votes_def Let_def)
qed

lemma candidateById_None_iff:
  "candidateById e c = None \<longleftrightarrow> c \<notin> c_id ` set (candidateList e)"
  by (simp add: candidateById_def js_Map_def map_of_eq_None_iff image_image)

lemma run_Nil: "run e [] = e"
  by (simp add: run_def)

lemma run_Cons: "run e (x # xs) = run (step e x) xs"
  by (simp add: run_def)

lemma step_candidateList: "candidateList (step e x) = candidateList e"
  by (cases x) (simp_all add: registerVoter_def castVote_def Let_def)

lemma step_registered:
  "v \<in> set (registeredVoters e) \<Longrightarrow> v \<in> set (registeredVoters (step e x))"
  by (cases x) (simp_all add: registerVoter_def castVote_def Let_def set_add_def)

lemma step_voted: "v \<in> set (votedVoters e) \<Longrightarrow> v \<in> set (votedVoters (step e x))"
  by (cases x) (simp_all add: registerVoter_def castVote_def Let_def set_add_def)

lemma run_candidateList: "candidateList (run e xs) = candidateList e"
  by (induction xs arbitrary: e) (simp_all add: run_Nil run_Cons step_candidateList)

lemma run_registered:
  "v \<in> set (registeredVoters e) \<Longrightarrow> v \<in> set (registeredVoters (run e xs))"
  by (induction xs arbitrary: e) (simp_all add: run_Nil run_Cons step_registered)

lemma run_voted: "v \<in> set (votedVoters e) \<Longrightarrow> v \<in> set (votedVoters (run e xs))"
  by (induction xs arbitrary: e) (simp_all add: run_Nil run_Cons step_voted)

lemma step_inv: "one_vote_inv e \<Longrightarrow> one_vote_inv (step e x)"
  by (cases x)
    (auto simp add: one_vote_inv_def registerVoter_def castVote_def Let_def set_add_def
      set_has_def)

lemma run_inv: "one_vote_inv e \<Longrightarrow> one_vote_inv (run e xs)"
  by (induction xs arbitrary: e) (simp_all add: run_Nil run_Cons step_inv)

lemma isValidVoter_iff:
  "isValidVoter voter \<longleftrightarrow>
     truthy voter \<and> typeof voter = TObject \<and>
     (\<exists>i n a. get_prop voter ''id'' = JStr i \<and> i \<noteq> [] \<and>
              get_prop voter ''name'' = JStr n \<and> n \<noteq> [] \<and>
              get_prop voter ''age'' = JNum (Fin a) \<and> 18 \<le> a)"
proof -
  have s: "typeof v = TString \<and> js_length v \<noteq> 0 \<longleftrightarrow> (\<exists>i. v = JStr i \<and> i \<noteq> [])" for v
    by (cases v) auto
  have a: "isFinite v \<and> \<not> num_lt v 18 \<longleftrightarrow> (\<exists>a. v = JNum (Fin a) \<and> 18 \<le> a)" for v
  proof (cases v)
    case (JNum n)
    then show ?thesis by (cases n) auto
  qed auto
  show ?thesis
    unfolding isValidVoter_def
    using s [of "get_prop voter ''id''"] s [of "get_prop voter ''name''"]
      a [of "get_prop voter ''age''"]
    by (auto simp del: typeof.simps js_length.simps isFinite.simps num_lt.simps truthy.simps)
qed

lemma demo_voted_eq:
  "demo_voted = \<lparr> candidateList = [demo_candidate], votes = [(''C1'', 1)],
       registeredVoters = [JStr ''V1''], votedVoters = [JStr ''V1''] \<rparr>"
  by (simp add: demo_defs eval_defs)

lemma castVote_after_vote:
  "v \<in> set (registeredVoters e) \<Longrightarrow> v \<in> set (votedVoters e) \<Longrightarrow>
   invoked (castVote e v c s f) =
     ErrorCb (JStr (if c \<in> c_id ` set (candidateList e)
                    then ''voter already voted'' else ''invalid candidate'')) \<and>
   after (castVote e v c s f) = e"
  by (simp add: castVote_def Let_def set_has_def candidateById_None_iff)

lemma first_missing_filter:
  "first_missing voter fs =
     (case filter (\<lambda>k. get_prop voter k \<in> {Undefined, Null, JStr []}) fs of
        [] \<Rightarrow> None | k # ks \<Rightarrow> Some k)"
proof (induction fs)
  case Nil
  then show ?case by simp
next
  case (Cons k ks)
  have "typeof w = TString \<and> js_length w = 0 \<longleftrightarrow> w = JStr []" for w
    by (cases w) auto
  with Cons show ?case
    by (simp add: Let_def)
qed

section \<open>Facts about the heap\<close>

lemma alloc_all_eq: "alloc_all h cs = (h @ cs, [length h ..< length h + length cs])"
proof (induction cs arbitrary: h)
  case Nil
  then show ?case by simp
next
  case (Cons c cs)
  have u: "[n ..< n + Suc m] = n # [Suc n ..< Suc n + m]" for n m :: nat
    by (simp add: upt_conv_Cons)
  show ?case
    using Cons [of "h @ [c]"] u [of "length h" "length cs"]
    by (simp add: alloc_def)
qed

lemma same_below_nth: "same_below n h h' \<Longrightarrow> a < n \<Longrightarrow> h' ! a = h ! a \<and> a < length h \<and> a < length h'"
proof -
  assume s: "same_below n h h'" and a: "a < n"
  then have "take n h' ! a = take n h ! a"
    by (simp add: same_below_def)
  with a have "h' ! a = h ! a"
    by simp
  with s a show ?thesis
    by (simp add: same_below_def)
qed

lemma same_below_refl: "n \<le> length h \<Longrightarrow> same_below n h h"
  by (simp add: same_below_def)

lemma same_below_trans: "same_below n h h' \<Longrightarrow> same_below n h' h'' \<Longrightarrow> same_below n h h''"
  by (simp add: same_below_def)

lemma same_below_append: "same_below (length h) h (h @ xs)"
  by (simp add: same_below_def)

lemma same_below_update: "same_below n h h' \<Longrightarrow> n \<le> a \<Longrightarrow> same_below n h (h'[a := c])"
  by (simp add: same_below_def)

lemma candidate_at_same:
  assumes "candidate_at h a = Some c" and "same_below (length h) h h'"
  shows "candidate_at h' a = Some c"
proof -
  from assms(1) have a: "a < length h"
    by (simp add: candidate_at_def split: if_splits)
  with assms(2) have "h' ! a = h ! a \<and> a < length h'"
    using same_below_nth by blast
  with assms(1) a show ?thesis
    by (simp add: candidate_at_def)
qed

lemma tally_at_same:
  assumes "tally_at h a = Some t" and "same_below (length h) h h'"
  shows "tally_at h' a = Some t"
proof -
  from assms(1) have a: "a < length h"
    by (simp add: tally_at_def split: if_splits)
  with assms(2) have "h' ! a = h ! a \<and> a < length h'"
    using same_below_nth by blast
  with assms(1) a show ?thesis
    by (simp add: tally_at_def)
qed

lemma array_at_same:
  assumes "array_at h a = Some as" and "same_below (length h) h h'"
  shows "array_at h' a = Some as"
proof -
  from assms(1) have a: "a < length h"
    by (simp add: array_at_def split: if_splits)
  with assms(2) have "h' ! a = h ! a \<and> a < length h'"
    using same_below_nth by blast
  with assms(1) a show ?thesis
    by (simp add: array_at_def)
qed

lemma those_map_cong:
  "those (map f xs) = Some ys \<Longrightarrow> (\<And>x y. x \<in> set xs \<Longrightarrow> f x = Some y \<Longrightarrow> g x = Some y) \<Longrightarrow>
   those (map g xs) = Some ys"
proof (induction xs arbitrary: ys)
  case Nil
  then show ?case by simp
next
  case (Cons x xs)
  from Cons.prems(1) obtain y zs where y: "f x = Some y" and zs: "those (map f xs) = Some zs"
    and ys: "ys = y # zs"
    by (auto split: option.splits)
  from y have "g x = Some y"
    by (simp add: Cons.prems(2))
  moreover have "those (map g xs) = Some zs"
    using zs by (rule Cons.IH) (simp add: Cons.prems(2))
  ultimately show ?case
    using ys by simp
qed

lemma roster_at_same:
  assumes "roster_at h cl = Some rs" and "same_below (length h) h h'"
  shows "roster_at h' cl = Some rs"
proof (cases "array_at h (candidateList_ref cl)")
  case None
  with assms(1) show ?thesis
    by (simp add: roster_at_def)
next
  case (Some as)
  with assms(1) have t: "those (map (\<lambda>a. map_option (Pair a) (candidate_at h a)) as) = Some rs"
    by (simp add: roster_at_def)
  have "those (map (\<lambda>a. map_option (Pair a) (candidate_at h' a)) as) = Some rs"
    using t
  proof (rule those_map_cong)
    fix x y
    assume m: "map_option (Pair x) (candidate_at h x) = Some y"
    then obtain c where c: "candidate_at h x = Some c"
      by (cases "candidate_at h x") simp_all
    with m have "y = (x, c)"
      by simp
    moreover from c assms(2) have "candidate_at h' x = Some c"
      by (rule candidate_at_same)
    ultimately show "map_option (Pair x) (candidate_at h' x) = Some y"
      by simp
  qed
  moreover from Some assms(2) have "array_at h' (candidateList_ref cl) = Some as"
    by (rule array_at_same)
  ultimately show ?thesis
    by (simp add: roster_at_def)
qed

lemma state_of_same:
  assumes "state_of h cl = Some e" and "same_below (length h) h h'"
  shows "state_of h' cl = Some e"
proof -
  from assms(1) obtain rs t where rs: "roster_at h cl = Some rs"
    and t: "tally_at h (votes_ref cl) = Some t"
    by (cases "roster_at h cl"; cases "tally_at h (votes_ref cl)") (simp_all add: state_of_def)
  from rs assms(2) have "roster_at h' cl = Some rs"
    by (rule roster_at_same)
  moreover from t assms(2) have "tally_at h' (votes_ref cl) = Some t"
    by (rule tally_at_same)
  ultimately show ?thesis
    using assms(1) rs t by (simp add: state_of_def)
qed

lemma set_sort_insert: "set (sort_insert cmp x xs) = insert x (set xs)"
  by (induction xs) auto

lemma set_array_sort: "set (array_sort cmp xs) = set xs"
  unfolding array_sort_def by (induction xs) (simp_all add: set_sort_insert)

lemma length_sort_insert: "length (sort_insert cmp x xs) = Suc (length xs)"
  by (induction xs) auto

lemma length_array_sort: "length (array_sort cmp xs) = length xs"
  unfolding array_sort_def by (induction xs) (simp_all add: length_sort_insert)

lemma map_snd_sort_insert:
  "map snd (sort_insert (\<lambda>x y. cmp (snd x) (snd y)) p ps) = sort_insert cmp (snd p) (map snd ps)"
  by (induction ps) auto

lemma map_snd_array_sort:
  "map snd (array_sort (\<lambda>x y. cmp (snd x) (snd y)) ps) = array_sort cmp (map snd ps)"
  unfolding array_sort_def by (induction ps) (simp_all add: map_snd_sort_insert)

lemma those_map_Some:
  "(\<And>x. x \<in> set xs \<Longrightarrow> f x = Some (g x)) \<Longrightarrow> those (map f xs) = Some (map g xs)"
  by (induction xs) auto

lemma update_last: "n = length h + length xs \<Longrightarrow> (h @ xs @ [c])[n := c'] = h @ xs @ [c']"
  by (simp add: list_update_append)

lemma getResults_h_eq:
  assumes "state_of h cl = Some e"
  shows "getResults_h h cl f =
     Some (h @ map ResultObj (map (result_record e) (candidateList e))
             @ [ArrayObj (map fst (array_sort
                   (\<lambda>x y. (case f of Some g \<Rightarrow> g | None \<Rightarrow> default_compare e) (snd x) (snd y))
                   (zip [length h ..< length h + length (candidateList e)]
                        (map (result_record e) (candidateList e)))))],
           length h + length (candidateList e))"
  using assms
  by (simp add: getResults_h_def Let_def alloc_all_eq alloc_def update_last del: map_map)

lemma result_records_at:
  assumes "p \<in> set (zip [length h ..< length h + length recs] recs)"
  shows "result_at (h @ map ResultObj recs @ [c]) (fst p) = Some (snd p) \<and> length h \<le> fst p"
proof -
  from assms obtain i where i: "i < length recs" and p: "p = (length h + i, recs ! i)"
    by (auto simp add: in_set_zip)
  have "(h @ map ResultObj recs @ [c]) ! (length h + i) = ResultObj (recs ! i)"
    using i by (simp add: nth_append)
  with i p show ?thesis
    by (simp add: result_at_def)
qed

lemma getResults_h_fresh:
  assumes "state_of h cl = Some e"
  shows "\<exists>h' arr refs. getResults_h h cl f = Some (h', arr) \<and> same_below (length h) h h' \<and>
           array_at h' arr = Some refs \<and> length h \<le> arr \<and>
           (\<forall>r\<in>set refs. length h \<le> r) \<and>
           those (map (result_at h') refs) = Some (getResults e f)"
proof -
  define recs where "recs = map (result_record e) (candidateList e)"
  define cmp where "cmp = (case f of Some g \<Rightarrow> g | None \<Rightarrow> default_compare e)"
  define sorted where
    "sorted = array_sort (\<lambda>x y. cmp (snd x) (snd y)) (zip [length h ..< length h + length recs] recs)"
  define h' where "h' = h @ map ResultObj recs @ [ArrayObj (map fst sorted)]"
  have n: "length recs = length (candidateList e)"
    by (simp add: recs_def)
  have g: "getResults_h h cl f = Some (h', length h + length recs)"
    unfolding h'_def sorted_def cmp_def n unfolding recs_def
    using assms by (rule getResults_h_eq)
  have s: "same_below (length h) h h'"
    unfolding h'_def by (rule same_below_append)
  have "h' ! (length h + length recs) = ArrayObj (map fst sorted)"
    by (simp add: h'_def nth_append)
  moreover have "length h + length recs < length h'"
    by (simp add: h'_def)
  ultimately have a: "array_at h' (length h + length recs) = Some (map fst sorted)"
    by (simp add: array_at_def)
  have p: "result_at h' (fst p) = Some (snd p) \<and> length h \<le> fst p" if "p \<in> set sorted" for p
  proof -
    from that have "p \<in> set (zip [length h ..< length h + length recs] recs)"
      by (simp add: sorted_def set_array_sort)
    then show ?thesis
      unfolding h'_def by (rule result_records_at)
  qed
  have "those (map (\<lambda>p. result_at h' (fst p)) sorted) = Some (map snd sorted)"
  proof (rule those_map_Some)
    fix x
    assume "x \<in> set sorted"
    then show "result_at h' (fst x) = Some (snd x)"
      by (simp add: p)
  qed
  moreover have "map snd sorted = getResults e f"
  proof -
    have "map snd sorted = array_sort cmp recs"
      by (simp add: sorted_def map_snd_array_sort)
    also have "\<dots> = getResults e f"
      by (cases f) (simp_all add: getResults_def cmp_def recs_def)
    finally show ?thesis .
  qed
  ultimately have t: "those (map (result_at h') (map fst sorted)) = Some (getResults e f)"
    by (simp add: comp_def)
  have f: "\<forall>r\<in>set (map fst sorted). length h \<le> r"
  proof
    fix r
    assume "r \<in> set (map fst sorted)"
    then obtain x where "x \<in> set sorted" "r = fst x"
      by auto
    then show "length h \<le> r"
      by (simp add: p)
  qed
  show ?thesis
  proof (intro exI conjI)
    show "getResults_h h cl f = Some (h', length h + length recs)" by (rule g)
    show "same_below (length h) h h'" by (rule s)
    show "array_at h' (length h + length recs) = Some (map fst sorted)" by (rule a)
    show "length h \<le> length h + length recs" by simp
    show "\<forall>r\<in>set (map fst sorted). length h \<le> r" by (rule f)
    show "those (map (result_at h') (map fst sorted)) = Some (getResults e f)" by (rule t)
  qed
qed

lemma same_below_append2: "same_below n h h1 \<Longrightarrow> same_below n h (h1 @ xs)"
  by (simp add: same_below_def)

lemma those_map_elem:
  "those (map f xs) = Some ys \<Longrightarrow> y \<in> set ys \<Longrightarrow> \<exists>x\<in>set xs. f x = Some y"
proof (induction xs arbitrary: ys)
  case Nil
  then show ?case by simp
next
  case (Cons x xs)
  from Cons.prems(1) obtain z zs where z: "f x = Some z" and zs: "those (map f xs) = Some zs"
    and ys: "ys = z # zs"
    by (auto split: option.splits)
  show ?case
  proof (cases "y = z")
    case True
    with z show ?thesis by simp
  next
    case False
    with Cons.prems(2) ys have "y \<in> set zs" by simp
    with zs have "\<exists>x\<in>set xs. f x = Some y" by (rule Cons.IH)
    then show ?thesis by simp
  qed
qed

lemma roster_at_candidate:
  assumes "roster_at h cl = Some rs" and "(a, c) \<in> set rs"
  shows "candidate_at h a = Some c"
proof (cases "array_at h (candidateList_ref cl)")
  case None
  with assms(1) show ?thesis by (simp add: roster_at_def)
next
  case (Some as)
  with assms(1) have "those (map (\<lambda>a. map_option (Pair a) (candidate_at h a)) as) = Some rs"
    by (simp add: roster_at_def)
  from those_map_elem [OF this assms(2)]
  obtain x where "map_option (Pair x) (candidate_at h x) = Some (a, c)"
    by blast
  then show ?thesis
    by (cases "candidate_at h x") simp_all
qed

lemma map_of_by_ref:
  assumes "\<And>a c. (a, c) \<in> set ps \<Longrightarrow> cand a = Some c"
  shows "map_of (map (\<lambda>(a, c). (c_id c, c)) ps) k =
         (case map_of (map (\<lambda>(a, c). (c_id c, a)) ps) k of None \<Rightarrow> None | Some w \<Rightarrow> cand w)"
  using assms
proof (induction ps)
  case Nil
  then show ?case by simp
next
  case (Cons p ps)
  obtain a c where p: "p = (a, c)" by (cases p)
  have "cand a = Some c"
    by (rule Cons.prems) (simp add: p)
  moreover have "map_of (map (\<lambda>(a, c). (c_id c, c)) ps) k =
         (case map_of (map (\<lambda>(a, c). (c_id c, a)) ps) k of None \<Rightarrow> None | Some w \<Rightarrow> cand w)"
    by (rule Cons.IH) (simp add: Cons.prems)
  ultimately show ?case
    by (simp add: p)
qed

lemma candidateById_by_ref:
  assumes "state_of h cl = Some e"
  shows "candidateById e k =
         (case candidateById_h h cl k of None \<Rightarrow> None | Some w \<Rightarrow> candidate_at h w)"
proof -
  from assms obtain rs where rs: "roster_at h cl = Some rs" and e: "candidateList e = map snd rs"
    by (cases "roster_at h cl"; cases "tally_at h (votes_ref cl)") (auto simp add: state_of_def)
  have 1: "candidateById e = map_of (map (\<lambda>(a, c). (c_id c, c)) (rev rs))"
    by (simp add: candidateById_def js_Map_def e rev_map comp_def case_prod_unfold)
  have 2: "candidateById_h h cl = map_of (map (\<lambda>(a, c). (c_id c, a)) (rev rs))"
    by (simp add: candidateById_h_def rs js_Map_def rev_map)
  have "\<And>a c. (a, c) \<in> set (rev rs) \<Longrightarrow> candidate_at h a = Some c"
    using roster_at_candidate [OF rs] by simp
  from map_of_by_ref [of "rev rs" "candidate_at h", OF this] show ?thesis
    by (simp add: 1 2)
qed

lemma getWinner_h_fresh:
  assumes "state_of h cl = Some e"
  shows "\<exists>h' w. getWinner_h h cl = Some (h', w) \<and> same_below (length h) h h' \<and>
           (case w of
              None \<Rightarrow> getWinner e = None
            | Some a \<Rightarrow> length h \<le> a \<and> (\<exists>c. candidate_at h' a = Some c \<and> getWinner e = Some c))"
proof -
  from getResults_h_fresh [OF assms, of None]
  obtain h1 arr refs where g: "getResults_h h cl None = Some (h1, arr)"
    and s: "same_below (length h) h h1" and a: "array_at h1 arr = Some refs"
    and t: "those (map (result_at h1) refs) = Some (getResults e None)"
    by blast
  from assms s have e1: "state_of h1 cl = Some e"
    by (rule state_of_same)
  from s have len: "length h \<le> length h1"
    by (simp add: same_below_def)
  show ?thesis
  proof (cases refs)
    case Nil
    with t have "getResults e None = []"
      by simp
    then have "getWinner e = None"
      by (simp add: getWinner_def)
    moreover from g a Nil have "getWinner_h h cl = Some (h1, None)"
      by (simp add: getWinner_h_def)
    ultimately show ?thesis
      using s by simp
  next
    case (Cons r rest)
    with t obtain r0 more where r0: "result_at h1 r = Some r0" and "r0 # more = getResults e None"
      by (cases "result_at h1 r"; cases "those (map (result_at h1) rest)") auto
    then have res: "getResults e None = r0 # more"
      by simp
    show ?thesis
    proof (cases "r_votes r0 = Count 0")
      case True
      with res have "getWinner e = None"
        by (simp add: getWinner_def)
      moreover from g a Cons r0 True have "getWinner_h h cl = Some (h1, None)"
        by (simp add: getWinner_h_def)
      ultimately show ?thesis
        using s by simp
    next
      case False
      note link = candidateById_by_ref [OF e1, of "r_id r0"]
      show ?thesis
      proof (cases "candidateById_h h1 cl (r_id r0)")
        case None
        with link have "candidateById e (r_id r0) = None"
          by simp
        with res False have "getWinner e = None"
          by (simp add: getWinner_def)
        moreover from g a Cons r0 False None have "getWinner_h h cl = Some (h1, None)"
          by (simp add: getWinner_h_def)
        ultimately show ?thesis
          using s by simp
      next
        case (Some w)
        from e1 obtain rs where rs: "roster_at h1 cl = Some rs"
          by (cases "roster_at h1 cl") (simp_all add: state_of_def)
        from Some rs have "map_of (rev (map (\<lambda>(a, c). (c_id c, a)) rs)) (r_id r0) = Some w"
          by (simp add: candidateById_h_def js_Map_def)
        then have "(r_id r0, w) \<in> set (map (\<lambda>(a, c). (c_id c, a)) rs)"
          using map_of_SomeD by fastforce
        then obtain c where "(w, c) \<in> set rs"
          by auto
        with rs have c: "candidate_at h1 w = Some c"
          by (rule roster_at_candidate)
        with link Some have "candidateById e (r_id r0) = Some c"
          by simp
        with res False have win: "getWinner e = Some c"
          by (simp add: getWinner_def)
        from g a Cons r0 False Some c
        have gw: "getWinner_h h cl = Some (h1 @ [CandidateObj c], Some (length h1))"
          by (simp add: getWinner_h_def alloc_def)
        have "candidate_at (h1 @ [CandidateObj c]) (length h1) = Some c"
          by (simp add: candidate_at_def)
        moreover from s have "same_below (length h) h (h1 @ [CandidateObj c])"
          by (rule same_below_append2)
        ultimately show ?thesis
          using gw win len by simp
      qed
    qed
  qed
qed

lemma those_map_defined:
  "those (map f xs) = Some ys \<Longrightarrow> x \<in> set xs \<Longrightarrow> \<exists>y. f x = Some y"
proof (induction xs arbitrary: ys)
  case Nil
  then show ?case by simp
next
  case (Cons b bs)
  from Cons.prems(1) obtain z zs where z: "f b = Some z" and zs: "those (map f bs) = Some zs"
    by (cases "f b"; cases "those (map f bs)") auto
  show ?case
  proof (cases "x = b")
    case True
    with z show ?thesis by blast
  next
    case False
    with Cons.prems(2) have "x \<in> set bs" by simp
    with zs show ?thesis by (rule Cons.IH)
  qed
qed

lemma owned_below:
  assumes "state_of h cl = Some e" and "a \<in> owned h cl"
  shows "a < length h"
proof -
  from assms(1) obtain rs t where rs: "roster_at h cl = Some rs"
    and t: "tally_at h (votes_ref cl) = Some t"
    by (cases "roster_at h cl"; cases "tally_at h (votes_ref cl)") (simp_all add: state_of_def)
  from rs obtain as where as: "array_at h (candidateList_ref cl) = Some as"
    and th: "those (map (\<lambda>a. map_option (Pair a) (candidate_at h a)) as) = Some rs"
    by (cases "array_at h (candidateList_ref cl)") (simp_all add: roster_at_def)
  from t have 1: "votes_ref cl < length h"
    by (simp add: tally_at_def split: if_splits)
  from as have 2: "candidateList_ref cl < length h"
    by (simp add: array_at_def split: if_splits)
  have 3: "x < length h" if "x \<in> set as" for x
  proof -
    from those_map_defined [OF th that]
    obtain y where "map_option (Pair x) (candidate_at h x) = Some y" ..
    then show ?thesis
      by (auto simp add: candidate_at_def split: if_splits)
  qed
  from assms(2) 1 2 3 as show ?thesis
    by (auto simp add: owned_def)
qed

lemma tallyPure_h_fresh:
  assumes "tally_at h a = Some t"
  shows "tallyPure_h h a c = Some (h @ [TallyObj (tallyPure_votes t c)], length h) \<and>
         tally_at (h @ [TallyObj (tallyPure_votes t c)]) a = Some t \<and>
         tally_at (h @ [TallyObj (tallyPure_votes t c)]) (length h) = Some (tallyPure_votes t c) \<and>
         a < length h"
proof -
  from assms have a: "a < length h"
    by (simp add: tally_at_def split: if_splits)
  with assms show ?thesis
    by (simp add: tallyPure_h_def alloc_def tally_at_def nth_append)
qed

lemma map_of_tallyPure_votes:
  "map_of (tallyPure_votes t c) =
     (map_of t)(c \<mapsto> count_plus_one (case map_of t c of Some n \<Rightarrow> n | None \<Rightarrow> 0))"
  by (simp add: tallyPure_votes_def update_conv')

lemma demo_state: "state_of demo_heap demo_closure = Some demo_voted"
  by (simp add: demo_voted_eq)
    (simp add: state_of_def roster_at_def array_at_def candidate_at_def tally_at_def demo_heap_def
      demo_closure_def)

lemma demo_results:
  "getResults demo_voted None =
     [\<lparr> r_id = ''C1'', r_name = ''Sarpanch Ram'', r_party = ''Janata'', r_votes = Count 1 \<rparr>]"
  by (simp add: demo_voted_eq)
    (simp add: getResults_def result_record_def read_votes_def array_sort_def demo_candidate_def)

lemma demo_winner: "getWinner demo_voted = Some demo_candidate"
  by (simp add: getWinner_def demo_results)
    (simp add: demo_voted_eq candidateById_def js_Map_def demo_candidate_def)

lemma those_map_pair:
  "those (map f xs) = Some ys \<Longrightarrow>
   those (map (\<lambda>x. map_option (Pair x) (f x)) xs) = Some (zip xs ys) \<and> length ys = length xs"
proof (induction xs arbitrary: ys)
  case Nil
  then show ?case by simp
next
  case (Cons x xs)
  from Cons.prems obtain z zs where z: "f x = Some z" and zs: "those (map f xs) = Some zs"
    and ys: "ys = z # zs"
    by (cases "f x"; cases "those (map f xs)") auto
  from Cons.IH [OF zs] z ys show ?case
    by simp
qed

lemma createElection_h_state:
  assumes a: "array_at h a = Some as" and cs: "those (map (candidate_at h) as) = Some cs"
  shows "createElection_h h (Some a) =
           (h @ [ArrayObj as, TallyObj []],
            \<lparr> candidateList_ref = length h, votes_ref = Suc (length h),
              registered = [], voted = [] \<rparr>) \<and>
         state_of (h @ [ArrayObj as, TallyObj []])
            \<lparr> candidateList_ref = length h, votes_ref = Suc (length h),
              registered = [], voted = [] \<rparr> = Some (createElection (Some cs)) \<and>
         length h \<noteq> a"
proof -
  let ?h = "h @ [ArrayObj as, TallyObj []]"
  let ?cl = "\<lparr> candidateList_ref = length h, votes_ref = Suc (length h),
              registered = [], voted = [] \<rparr>"
  have c: "createElection_h h (Some a) = (?h, ?cl)"
    using a by (simp add: createElection_h_def alloc_def)
  from a have lt: "a < length h"
    by (simp add: array_at_def split: if_splits)
  have s: "same_below (length h) h ?h"
    by (rule same_below_append)
  have arr: "array_at ?h (length h) = Some as"
    by (simp add: array_at_def)
  have tal: "tally_at ?h (Suc (length h)) = Some []"
    by (simp add: tally_at_def nth_append)
  from those_map_pair [OF cs]
  have p: "those (map (\<lambda>x. map_option (Pair x) (candidate_at h x)) as) = Some (zip as cs)"
    and len: "length cs = length as"
    by simp_all
  have "those (map (\<lambda>x. map_option (Pair x) (candidate_at ?h x)) as) = Some (zip as cs)"
    using p
  proof (rule those_map_cong)
    fix x y
    assume m: "map_option (Pair x) (candidate_at h x) = Some y"
    then obtain k where k: "candidate_at h x = Some k"
      by (cases "candidate_at h x") simp_all
    from k s have "candidate_at ?h x = Some k"
      by (rule candidate_at_same)
    with m k show "map_option (Pair x) (candidate_at ?h x) = Some y"
      by simp
  qed
  with arr have "roster_at ?h ?cl = Some (zip as cs)"
    by (simp add: roster_at_def)
  with tal len have "state_of ?h ?cl = Some (createElection (Some cs))"
    by (simp add: state_of_def createElection_def)
  with c lt show ?thesis
    by simp
qed

section \<open>The default order of the results\<close>

text \<open>
  What \<open>getResults\<close> and \<open>getWinner\<close> do on a roster with pairwise distinct ids
  when no record reads an inherited property: the results are the roster's
  records with their counts, more votes first and ties in roster order, and the
  winner is the first roster candidate with the greatest count, if that is not 0.
\<close>

lemma read_votes_count:
  "inherited (c_id c) = Undefined \<or> map_of (votes e) (c_id c) \<noteq> None \<Longrightarrow>
   read_votes (votes e) (c_id c) = Count (count_of e c)"
  by (auto simp add: read_votes_def count_of_def split: option.splits)

lemma result_record_count:
  assumes "no_inherited_votes e" and "c \<in> set (candidateList e)"
  shows "result_record e c =
     \<lparr> r_id = c_id c, r_name = c_name c, r_party = c_party c, r_votes = Count (count_of e c) \<rparr>"
proof -
  from assms have "inherited (c_id c) = Undefined \<or> map_of (votes e) (c_id c) \<noteq> None"
    by (simp add: no_inherited_votes_def list_all_iff)
  then show ?thesis
    by (simp add: result_record_def read_votes_count)
qed

lemma positive_default_compare:
  assumes "r_votes a = Count m" and "r_votes b = Count n"
  shows "positive (default_compare e a b) \<longleftrightarrow>
           m < n \<or> (m = n \<and> index_of e (r_id b) < index_of e (r_id a))"
  using assms by (auto simp add: default_compare_def)

lemma not_positive_ranks:
  assumes "r_votes a = Count m" and "r_votes b = Count n"
  shows "\<not> positive (default_compare e a b) \<longleftrightarrow> ranks_before e a b"
  using assms by (auto simp add: positive_default_compare ranks_before_def)

lemma ranks_before_total:
  assumes "r_votes a = Count m" and "r_votes b = Count n"
  shows "ranks_before e a b \<or> ranks_before e b a"
  using assms by (auto simp add: ranks_before_def)

lemma ranks_before_trans:
  "ranks_before e a b \<Longrightarrow> ranks_before e b c \<Longrightarrow> ranks_before e a c"
  by (auto simp add: ranks_before_def split: vote_field.splits)

lemma sorted_sort_insert:
  assumes "\<forall>r\<in>set (x # xs). \<exists>n. r_votes r = Count n"
    and "sorted_wrt (ranks_before e) xs"
  shows "sorted_wrt (ranks_before e) (sort_insert (default_compare e) x xs)"
  using assms
proof (induction xs)
  case Nil
  then show ?case by simp
next
  case (Cons y ys)
  from Cons.prems(1) obtain m n where m: "r_votes x = Count m" and n: "r_votes y = Count n"
    by auto
  show ?case
  proof (cases "positive (default_compare e x y)")
    case True
    with m n have "\<not> ranks_before e x y"
      using not_positive_ranks by blast
    with m n have yx: "ranks_before e y x"
      using ranks_before_total by blast
    have "sorted_wrt (ranks_before e) (sort_insert (default_compare e) x ys)"
      using Cons.prems by (intro Cons.IH) simp_all
    moreover have "\<forall>z\<in>set (sort_insert (default_compare e) x ys). ranks_before e y z"
      using yx Cons.prems(2) by (simp add: set_sort_insert)
    ultimately show ?thesis
      using True by simp
  next
    case False
    with m n have xy: "ranks_before e x y"
      using not_positive_ranks by blast
    have "\<forall>z\<in>set ys. ranks_before e x z"
      using xy Cons.prems(2) ranks_before_trans by auto
    with xy False Cons.prems(2) show ?thesis
      by simp
  qed
qed

lemma sorted_array_sort:
  assumes "\<forall>r\<in>set xs. \<exists>n. r_votes r = Count n"
  shows "sorted_wrt (ranks_before e) (array_sort (default_compare e) xs)"
  using assms
proof (induction xs)
  case Nil
  then show ?case by (simp add: array_sort_def)
next
  case (Cons x xs)
  have s: "set (array_sort (default_compare e) xs) = set xs"
    by (rule set_array_sort)
  have "sorted_wrt (ranks_before e) (sort_insert (default_compare e) x (array_sort (default_compare e) xs))"
  proof (rule sorted_sort_insert)
    show "\<forall>r\<in>set (x # array_sort (default_compare e) xs). \<exists>n. r_votes r = Count n"
      using Cons.prems by (simp add: s)
    show "sorted_wrt (ranks_before e) (array_sort (default_compare e) xs)"
      using Cons.prems by (intro Cons.IH) simp
  qed
  then show ?case
    by (simp add: array_sort_def)
qed

lemma array_sort_sorted_id:
  "sorted_wrt (\<lambda>a b. \<not> positive (cmp a b)) xs \<Longrightarrow> array_sort cmp xs = xs"
proof (induction xs)
  case Nil
  then show ?case by (simp add: array_sort_def)
next
  case (Cons x xs)
  then have "array_sort cmp xs = xs"
    by simp
  then have "array_sort cmp (x # xs) = sort_insert cmp x xs"
    by (simp add: array_sort_def)
  also have "\<dots> = x # xs"
    using Cons.prems by (cases xs) simp_all
  finally show ?case .
qed

lemma js_Map_distinct:
  assumes "distinct (map fst xs)" and "(k, v) \<in> set xs"
  shows "js_Map xs k = Some v"
proof -
  from assms(1) have "distinct (map fst (rev xs))"
    by (simp add: rev_map [symmetric])
  moreover from assms(2) have "(k, v) \<in> set (rev xs)"
    by simp
  ultimately show ?thesis
    unfolding js_Map_def by (rule map_of_is_SomeI)
qed

lemma index_of_nth:
  assumes "distinct (map c_id (candidateList e))" and "i < length (candidateList e)"
  shows "index_of e (c_id (candidateList e ! i)) = i"
proof -
  let ?ps = "map (\<lambda>(idx, c). (c_id c, idx)) (List.enumerate 0 (candidateList e))"
  have "map fst ?ps = map c_id (candidateList e)"
    by (simp add: list_eq_iff_nth_eq nth_enumerate_eq case_prod_unfold)
  with assms(1) have d: "distinct (map fst ?ps)"
    by (simp only:)
  have "(i, candidateList e ! i) \<in> set (List.enumerate 0 (candidateList e))"
    using assms(2) by (simp add: in_set_enumerate_eq)
  then have "(c_id (candidateList e ! i), i) \<in> set ?ps"
    by force
  with d have "js_Map ?ps (c_id (candidateList e ! i)) = Some i"
    by (rule js_Map_distinct)
  then show ?thesis
    by (simp add: index_of_def candidateIndex_def)
qed

lemma candidateById_distinct:
  assumes "distinct (map c_id (candidateList e))" and "c \<in> set (candidateList e)"
  shows "candidateById e (c_id c) = Some c"
proof -
  let ?ps = "map (\<lambda>c. (c_id c, c)) (candidateList e)"
  have "map fst ?ps = map c_id (candidateList e)"
    by (simp add: comp_def)
  with assms(1) have "distinct (map fst ?ps)"
    by (simp only:)
  moreover from assms(2) have "(c_id c, c) \<in> set ?ps"
    by auto
  ultimately show ?thesis
    unfolding candidateById_def by (rule js_Map_distinct)
qed

lemma distinct_map_sort_insert:
  "distinct (map f (sort_insert cmp x xs)) \<longleftrightarrow> f x \<notin> f ` set xs \<and> distinct (map f xs)"
  by (induction xs) (auto simp add: set_sort_insert)

lemma distinct_map_array_sort:
  "distinct (map f (array_sort cmp xs)) \<longleftrightarrow> distinct (map f xs)"
proof (induction xs)
  case Nil
  then show ?case by (simp add: array_sort_def)
next
  case (Cons x xs)
  have "array_sort cmp (x # xs) = sort_insert cmp x (array_sort cmp xs)"
    by (simp add: array_sort_def)
  with Cons show ?case
    by (simp add: distinct_map_sort_insert set_array_sort)
qed

lemma results_counts:
  assumes "no_inherited_votes e" and "r \<in> set (getResults e None)"
  shows "\<exists>c\<in>set (candidateList e). r = result_record e c \<and> r_id r = c_id c \<and>
           r_votes r = Count (count_of e c)"
proof -
  from assms(2) have "r \<in> result_record e ` set (candidateList e)"
    by (simp add: getResults_def set_array_sort)
  then obtain c where c: "c \<in> set (candidateList e)" and r: "r = result_record e c"
    by blast
  from result_record_count [OF assms(1) c] r
  have "r_id r = c_id c \<and> r_votes r = Count (count_of e c)"
    by simp
  with c r show ?thesis
    by blast
qed

lemma getResults_sorted:
  assumes "no_inherited_votes e"
  shows "sorted_wrt (ranks_before e) (getResults e None)"
proof -
  have "\<forall>r\<in>set (map (result_record e) (candidateList e)). \<exists>n. r_votes r = Count n"
    using result_record_count [OF assms] by auto
  then have "sorted_wrt (ranks_before e) (array_sort (default_compare e)
      (map (result_record e) (candidateList e)))"
    by (rule sorted_array_sort)
  then show ?thesis
    by (simp add: getResults_def)
qed

lemma getResults_distinct:
  assumes "distinct (map c_id (candidateList e))"
  shows "distinct (map r_id (getResults e None))"
proof -
  have "map r_id (map (result_record e) (candidateList e)) = map c_id (candidateList e)"
    by (simp add: result_record_def comp_def)
  with assms have "distinct (map r_id (map (result_record e) (candidateList e)))"
    by (simp only:)
  then show ?thesis
    by (simp only: getResults_def Let_def option.case distinct_map_array_sort)
qed

lemma index_of_inj:
  assumes "distinct (map c_id (candidateList e))"
    and "a \<in> set (candidateList e)" and "b \<in> set (candidateList e)"
    and "index_of e (c_id a) = index_of e (c_id b)"
  shows "c_id a = c_id b"
proof -
  from assms(2,3) obtain i j where i: "i < length (candidateList e)" "candidateList e ! i = a"
    and j: "j < length (candidateList e)" "candidateList e ! j = b"
    by (auto simp add: in_set_conv_nth)
  from index_of_nth [OF assms(1) i(1)] index_of_nth [OF assms(1) j(1)] i j assms(4)
  have "i = j" by simp
  with i j show ?thesis by simp
qed

lemma getResults_default_order:
  assumes d: "distinct (map c_id (candidateList e))" and n: "no_inherited_votes e"
  shows "length (getResults e None) = length (candidateList e) \<and>
         set (getResults e None) =
           (\<lambda>c. \<lparr> r_id = c_id c, r_name = c_name c, r_party = c_party c,
                   r_votes = Count (count_of e c) \<rparr>) ` set (candidateList e) \<and>
         (\<forall>i j. i < j \<and> j < length (getResults e None) \<longrightarrow>
            (\<exists>p q. r_votes (getResults e None ! i) = Count p \<and>
                   r_votes (getResults e None ! j) = Count q \<and>
                   (q < p \<or> (p = q \<and> index_of e (r_id (getResults e None ! i))
                                      < index_of e (r_id (getResults e None ! j))))))"
proof -
  let ?rs = "getResults e None"
  have len: "length ?rs = length (candidateList e)"
    by (simp add: getResults_def length_array_sort)
  have "set ?rs = result_record e ` set (candidateList e)"
    by (simp add: getResults_def set_array_sort)
  also have "\<dots> = (\<lambda>c. \<lparr> r_id = c_id c, r_name = c_name c, r_party = c_party c,
                   r_votes = Count (count_of e c) \<rparr>) ` set (candidateList e)"
    using result_record_count [OF n] by (intro image_cong) simp_all
  finally have st: "set ?rs = (\<lambda>c. \<lparr> r_id = c_id c, r_name = c_name c, r_party = c_party c,
                   r_votes = Count (count_of e c) \<rparr>) ` set (candidateList e)" .
  have ord: "\<exists>p q. r_votes (?rs ! i) = Count p \<and> r_votes (?rs ! j) = Count q \<and>
                   (q < p \<or> (p = q \<and> index_of e (r_id (?rs ! i)) < index_of e (r_id (?rs ! j))))"
    if ij: "i < j" "j < length ?rs" for i j
  proof -
    from ij have mi: "?rs ! i \<in> set ?rs" and mj: "?rs ! j \<in> set ?rs"
      by simp_all
    from results_counts [OF n mi] obtain a where a: "a \<in> set (candidateList e)"
      "r_id (?rs ! i) = c_id a" "r_votes (?rs ! i) = Count (count_of e a)"
      by blast
    from results_counts [OF n mj] obtain b where b: "b \<in> set (candidateList e)"
      "r_id (?rs ! j) = c_id b" "r_votes (?rs ! j) = Count (count_of e b)"
      by blast
    from getResults_sorted [OF n] ij have rb: "ranks_before e (?rs ! i) (?rs ! j)"
      by (simp add: sorted_wrt_iff_nth_less)
    from getResults_distinct [OF d] ij have "r_id (?rs ! i) \<noteq> r_id (?rs ! j)"
      by (auto simp add: distinct_conv_nth)
    with a b have "index_of e (r_id (?rs ! i)) \<noteq> index_of e (r_id (?rs ! j))"
      using index_of_inj [OF d a(1) b(1)] by auto
    with rb a(3) b(3) show ?thesis
      by (auto simp add: ranks_before_def)
  qed
  from len st ord show ?thesis
    by blast
qed

lemma getResults_no_votes:
  assumes d: "distinct (map c_id (candidateList e))" and n: "no_inherited_votes e"
    and z: "votes e = []"
  shows "getResults e None =
           map (\<lambda>c. \<lparr> r_id = c_id c, r_name = c_name c, r_party = c_party c, r_votes = Count 0 \<rparr>)
             (candidateList e)"
proof -
  let ?rs0 = "map (result_record e) (candidateList e)"
  have rec: "result_record e c =
      \<lparr> r_id = c_id c, r_name = c_name c, r_party = c_party c, r_votes = Count 0 \<rparr>"
    if "c \<in> set (candidateList e)" for c
    using result_record_count [OF n that] z by (simp add: count_of_def)
  have "sorted_wrt (\<lambda>a b. \<not> positive (default_compare e a b)) ?rs0"
    unfolding sorted_wrt_iff_nth_less
  proof (intro allI impI)
    fix i j
    assume ij: "i < j" "j < length ?rs0"
    then have i: "i < length (candidateList e)" and j: "j < length (candidateList e)"
      by simp_all
    from i j have "?rs0 ! i = \<lparr> r_id = c_id (candidateList e ! i), r_name = c_name (candidateList e ! i),
        r_party = c_party (candidateList e ! i), r_votes = Count 0 \<rparr>"
      and "?rs0 ! j = \<lparr> r_id = c_id (candidateList e ! j), r_name = c_name (candidateList e ! j),
        r_party = c_party (candidateList e ! j), r_votes = Count 0 \<rparr>"
      by (simp_all add: rec)
    with ij show "\<not> positive (default_compare e (?rs0 ! i) (?rs0 ! j))"
      by (simp add: default_compare_def index_of_nth [OF d i] index_of_nth [OF d j])
  qed
  then have s: "array_sort (default_compare e) ?rs0 = ?rs0"
    by (rule array_sort_sorted_id)
  have "getResults e None = array_sort (default_compare e) ?rs0"
    by (simp add: getResults_def)
  also note s
  also have "?rs0 = map (\<lambda>c. \<lparr> r_id = c_id c, r_name = c_name c, r_party = c_party c,
      r_votes = Count 0 \<rparr>) (candidateList e)"
    by (rule map_cong) (simp_all add: rec)
  finally show ?thesis .
qed

lemma ranks_before_refl: "r_votes a = Count m \<Longrightarrow> ranks_before e a a"
  by (simp add: ranks_before_def)

lemma hd_ranks_first:
  assumes "sorted_wrt (ranks_before e) rs" and "r \<in> set rs"
    and "\<forall>x\<in>set rs. \<exists>m. r_votes x = Count m"
  shows "ranks_before e (hd rs) r"
proof (cases rs)
  case Nil
  with assms(2) show ?thesis by simp
next
  case (Cons x xs)
  show ?thesis
  proof (cases "r = x")
    case True
    from assms(3) Cons obtain m where "r_votes x = Count m"
      by auto
    then have "ranks_before e x x"
      by (rule ranks_before_refl)
    with True Cons show ?thesis by simp
  next
    case False
    with assms(1,2) Cons show ?thesis
      by simp
  qed
qed

lemma getWinner_first_of_best:
  assumes d: "distinct (map c_id (candidateList e))" and n: "no_inherited_votes e"
  shows "(getWinner e = None \<longleftrightarrow>
            candidateList e = [] \<or> (\<forall>c\<in>set (candidateList e). count_of e c = 0)) \<and>
         (\<forall>w. getWinner e = Some w \<longrightarrow>
            (\<exists>i<length (candidateList e). w = candidateList e ! i \<and> 0 < count_of e w \<and>
               (\<forall>j<length (candidateList e).
                  count_of e (candidateList e ! j) \<le> count_of e w \<and>
                  (count_of e (candidateList e ! j) = count_of e w \<longrightarrow> i \<le> j))))"
proof (cases "candidateList e = []")
  case True
  then have "getResults e None = []"
    by (simp add: getResults_def array_sort_def)
  then have "getWinner e = None"
    by (simp add: getWinner_def)
  with True show ?thesis by simp
next
  case False
  let ?rs = "getResults e None"
  have len: "length ?rs = length (candidateList e)"
    by (simp add: getResults_def length_array_sort)
  with False have ne: "?rs \<noteq> []"
    by auto
  then have hd_in: "hd ?rs \<in> set ?rs"
    by simp
  from results_counts [OF n hd_in] obtain w0 where w0: "w0 \<in> set (candidateList e)"
    and id0: "r_id (hd ?rs) = c_id w0" and v0: "r_votes (hd ?rs) = Count (count_of e w0)"
    by blast
  from w0 obtain i where i: "i < length (candidateList e)" and wi: "candidateList e ! i = w0"
    by (auto simp add: in_set_conv_nth)
  have all_counts: "\<forall>x\<in>set ?rs. \<exists>m. r_votes x = Count m"
    using results_counts [OF n] by blast
  have best: "count_of e c \<le> count_of e w0 \<and>
      (count_of e c = count_of e w0 \<longrightarrow> index_of e (c_id w0) \<le> index_of e (c_id c))"
    if c: "c \<in> set (candidateList e)" for c
  proof -
    from c have m: "result_record e c \<in> set ?rs"
      by (simp add: getResults_def set_array_sort)
    from hd_ranks_first [OF getResults_sorted [OF n] m all_counts]
    have "ranks_before e (hd ?rs) (result_record e c)" .
    with v0 id0 result_record_count [OF n c] show ?thesis
      by (auto simp add: ranks_before_def)
  qed
  have best_nth: "count_of e (candidateList e ! j) \<le> count_of e w0 \<and>
      (count_of e (candidateList e ! j) = count_of e w0 \<longrightarrow> i \<le> j)"
    if j: "j < length (candidateList e)" for j
  proof -
    from j have "candidateList e ! j \<in> set (candidateList e)"
      by simp
    from best [OF this] index_of_nth [OF d j] index_of_nth [OF d i] wi show ?thesis
      by simp
  qed
  show ?thesis
  proof (cases "count_of e w0 = 0")
    case True
    with v0 ne have "getWinner e = None"
      by (simp add: getWinner_def)
    moreover from True best have "\<forall>c\<in>set (candidateList e). count_of e c = 0"
      by auto
    ultimately show ?thesis by simp
  next
    case pos: False
    from candidateById_distinct [OF d w0] id0
    have "candidateById e (r_id (hd ?rs)) = Some w0"
      by simp
    with v0 ne pos have win: "getWinner e = Some w0"
      by (simp add: getWinner_def)
    from pos w0 have "\<not> (\<forall>c\<in>set (candidateList e). count_of e c = 0)"
      by auto
    moreover have "\<exists>i<length (candidateList e). w0 = candidateList e ! i \<and> 0 < count_of e w0 \<and>
               (\<forall>j<length (candidateList e).
                  count_of e (candidateList e ! j) \<le> count_of e w0 \<and>
                  (count_of e (candidateList e ! j) = count_of e w0 \<longrightarrow> i \<le> j))"
      using i wi pos best_nth by blast
    ultimately show ?thesis
      using win False by simp
  qed
qed

section \<open>The claims\<close>

subsection \<open>One vote per voter\<close>

text \<open>
  C1, as stated, fails: after a successful \<open>castVote\<close> a later \<open>castVote\<close> by the
  same voter for an id that is not on the roster reports \<open>invalid candidate\<close>,
  not \<open>voter already voted\<close>, because the candidate is checked before the voted
  set. Here voter \<open>V1\<close> has voted for \<open>C1\<close> and then names \<open>Cx\<close>.
\<close>

theorem one_vote_counterexample:
  "invoked (castVote demo_registered (JStr ''V1'') ''C1'' None None) =
     SuccessCb (JObj [(''voterId'', JStr ''V1''), (''candidateId'', JStr ''C1'')]) \<and>
   demo_voted = after (castVote demo_registered (JStr ''V1'') ''C1'' None None) \<and>
   invoked (castVote demo_voted (JStr ''V1'') ''Cx'' None None) =
     ErrorCb (JStr ''invalid candidate'') \<and>
   invoked (castVote demo_voted (JStr ''V1'') ''Cx'' None None) \<noteq>
     ErrorCb (JStr ''voter already voted'')"
  by (simp add: demo_defs eval_defs)

text \<open>
  C1, amended: after every sequence of operations on a new election the voted
  set holds no voter twice and only registered voters; and once a \<open>castVote\<close> of
  a voter has succeeded, every later \<open>castVote\<close> of that voter, after any further
  operations, invokes the error callback and leaves the whole state (tally and
  both sets) unchanged. The reason is \<open>voter already voted\<close> when the candidate
  id is on the roster and \<open>invalid candidate\<close> when it is not.
\<close>

theorem one_vote_per_voter:
  "distinct (votedVoters (run (createElection cs) ops)) \<and>
   set (votedVoters (run (createElection cs) ops))
     \<subseteq> set (registeredVoters (run (createElection cs) ops)) \<and>
   ((\<exists>p. invoked (castVote (run (createElection cs) ops) v c s f) = SuccessCb p) \<longrightarrow>
      (\<forall>later c' s' f'.
         invoked (castVote (run (after (castVote (run (createElection cs) ops) v c s f)) later)
                    v c' s' f') =
           ErrorCb (JStr (if c' \<in> c_id ` set (candidateList (createElection cs))
                          then ''voter already voted'' else ''invalid candidate'')) \<and>
         after (castVote (run (after (castVote (run (createElection cs) ops) v c s f)) later)
                  v c' s' f') =
           run (after (castVote (run (createElection cs) ops) v c s f)) later))"
proof -
  let ?e = "run (createElection cs) ops"
  have "one_vote_inv (createElection cs)"
    by (simp add: one_vote_inv_def createElection_def)
  then have i: "one_vote_inv ?e"
    by (rule run_inv)
  have l: "invoked (castVote (run (after (castVote ?e v c s f)) later) v c' s' f') =
           ErrorCb (JStr (if c' \<in> c_id ` set (candidateList (createElection cs))
                          then ''voter already voted'' else ''invalid candidate'')) \<and>
         after (castVote (run (after (castVote ?e v c s f)) later) v c' s' f') =
           run (after (castVote ?e v c s f)) later"
    if ok: "invoked (castVote ?e v c s f) = SuccessCb p" for p later c' s' f'
  proof -
    let ?e1 = "after (castVote ?e v c s f)"
    let ?e2 = "run ?e1 later"
    from ok have "v \<in> set (registeredVoters ?e1) \<and> v \<in> set (votedVoters ?e1)
        \<and> candidateList ?e1 = candidateList ?e"
      by (auto simp add: castVote_def Let_def set_has_def set_add_def split: if_splits)
    then have "v \<in> set (registeredVoters ?e2)" "v \<in> set (votedVoters ?e2)"
        "candidateList ?e2 = candidateList (createElection cs)"
      by (simp_all add: run_registered run_voted run_candidateList)
    then show ?thesis
      using castVote_after_vote [of v ?e2 c' s' f'] by auto
  qed
  from i l show ?thesis
    unfolding one_vote_inv_def by blast
qed

theorem one_vote_per_voter_witness:
  "(\<exists>p. invoked (castVote demo_registered (JStr ''V1'') ''C1'' None None) = SuccessCb p) \<and>
   invoked (castVote (run demo_voted [GetWinner]) (JStr ''V1'') ''C1'' None None) =
     ErrorCb (JStr ''voter already voted'') \<and>
   after (castVote (run demo_voted [GetWinner]) (JStr ''V1'') ''C1'' None None) =
     run demo_voted [GetWinner] \<and>
   invoked (castVote (run demo_voted [GetWinner]) (JStr ''V1'') ''Cx'' None None) =
     ErrorCb (JStr ''invalid candidate'')"
proof -
  have r: "run (createElection (Some [demo_candidate])) [RegisterVoter demo_voter] = demo_registered"
    by (simp add: demo_registered_def demo_election_def)
  have ok: "invoked (castVote demo_registered (JStr ''V1'') ''C1'' None None) =
      SuccessCb (JObj [(''voterId'', JStr ''V1''), (''candidateId'', JStr ''C1'')])"
    by (simp add: demo_defs eval_defs)
  have a: "after (castVote demo_registered (JStr ''V1'') ''C1'' None None) = demo_voted"
    by (simp add: demo_defs eval_defs)
  have c: "''C1'' \<in> c_id ` set (candidateList (createElection (Some [demo_candidate])))"
      "''Cx'' \<notin> c_id ` set (candidateList (createElection (Some [demo_candidate])))"
    by (simp_all add: createElection_def demo_candidate_def)
  note t = one_vote_per_voter [of "Some [demo_candidate]" "[RegisterVoter demo_voter]"
      "JStr ''V1''" "''C1''" None None, unfolded r a]
  from t ok have "\<forall>later c' s' f'.
      invoked (castVote (run demo_voted later) (JStr ''V1'') c' s' f') =
        ErrorCb (JStr (if c' \<in> c_id ` set (candidateList (createElection (Some [demo_candidate])))
                       then ''voter already voted'' else ''invalid candidate'')) \<and>
      after (castVote (run demo_voted later) (JStr ''V1'') c' s' f') = run demo_voted later"
    by blast
  then have "\<forall>c'. invoked (castVote (run demo_voted [GetWinner]) (JStr ''V1'') c' None None) =
        ErrorCb (JStr (if c' \<in> c_id ` set (candidateList (createElection (Some [demo_candidate])))
                       then ''voter already voted'' else ''invalid candidate'')) \<and>
      after (castVote (run demo_voted [GetWinner]) (JStr ''V1'') c' None None) =
        run demo_voted [GetWinner]"
    by blast
  then show ?thesis
    using ok c by auto
qed

subsection \<open>castVote: the error paths\<close>

text \<open>
  C2: \<open>castVote\<close> validates in a fixed order and the first failing check
  decides. A voter who is not registered gives \<open>voter not registered\<close>; else a
  candidate id that is not on the roster gives \<open>invalid candidate\<close>; else a
  voter who has voted gives \<open>voter already voted\<close>. Each time the error callback
  is the one callback invoked, with that literal, and the election state is
  returned unchanged; the error callback is invoked in no other case.
\<close>

theorem castVote_validation_order:
  "(v \<notin> set (registeredVoters e) \<longrightarrow>
      castVote e v c s f =
        \<lparr> invoked = ErrorCb (JStr ''voter not registered''),
          returned = (case f of Some g \<Rightarrow> g (JStr ''voter not registered'') | None \<Rightarrow> Undefined),
          after = e \<rparr>) \<and>
   (v \<in> set (registeredVoters e) \<and> c \<notin> c_id ` set (candidateList e) \<longrightarrow>
      castVote e v c s f =
        \<lparr> invoked = ErrorCb (JStr ''invalid candidate''),
          returned = (case f of Some g \<Rightarrow> g (JStr ''invalid candidate'') | None \<Rightarrow> Undefined),
          after = e \<rparr>) \<and>
   (v \<in> set (registeredVoters e) \<and> c \<in> c_id ` set (candidateList e)
      \<and> v \<in> set (votedVoters e) \<longrightarrow>
      castVote e v c s f =
        \<lparr> invoked = ErrorCb (JStr ''voter already voted''),
          returned = (case f of Some g \<Rightarrow> g (JStr ''voter already voted'') | None \<Rightarrow> Undefined),
          after = e \<rparr>) \<and>
   (\<forall>r. invoked (castVote e v c s f) = ErrorCb r \<longrightarrow>
      after (castVote e v c s f) = e \<and>
      (v \<notin> set (registeredVoters e) \<or> c \<notin> c_id ` set (candidateList e)
         \<or> v \<in> set (votedVoters e)))"
  by (auto simp add: castVote_def Let_def set_has_def candidateById_None_iff split: option.splits)

theorem castVote_validation_order_witness:
  "castVote demo_election (JStr ''Vx'') ''C1'' None (Some (\<lambda>r. r)) =
     \<lparr> invoked = ErrorCb (JStr ''voter not registered''),
       returned = JStr ''voter not registered'', after = demo_election \<rparr> \<and>
   castVote demo_registered (JStr ''V1'') ''Cx'' None (Some (\<lambda>r. r)) =
     \<lparr> invoked = ErrorCb (JStr ''invalid candidate''),
       returned = JStr ''invalid candidate'', after = demo_registered \<rparr> \<and>
   castVote demo_voted (JStr ''V1'') ''C1'' None (Some (\<lambda>r. r)) =
     \<lparr> invoked = ErrorCb (JStr ''voter already voted''),
       returned = JStr ''voter already voted'', after = demo_voted \<rparr>"
proof -
  have 1: "JStr ''Vx'' \<notin> set (registeredVoters demo_election)"
    by (simp add: demo_defs eval_defs)
  have 2: "JStr ''V1'' \<in> set (registeredVoters demo_registered) \<and>
           ''Cx'' \<notin> c_id ` set (candidateList demo_registered)"
    by (simp add: demo_defs eval_defs)
  have 3: "JStr ''V1'' \<in> set (registeredVoters demo_voted) \<and>
           ''C1'' \<in> c_id ` set (candidateList demo_voted) \<and>
           JStr ''V1'' \<in> set (votedVoters demo_voted)"
    by (simp add: demo_voted_eq) (simp add: demo_candidate_def)
  show ?thesis
    using 1 2 3
      castVote_validation_order [of "JStr ''Vx''" demo_election "''C1''" None "Some (\<lambda>r. r)"]
      castVote_validation_order [of "JStr ''V1''" demo_registered "''Cx''" None "Some (\<lambda>r. r)"]
      castVote_validation_order [of "JStr ''V1''" demo_voted "''C1''" None "Some (\<lambda>r. r)"]
    by simp
qed

subsection \<open>castVote: the accepted vote\<close>

text \<open>
  C3: for a registered voter who has not voted and a candidate id on the
  roster, \<open>castVote\<close> invokes the success callback with \<open>{ voterId, candidateId }\<close>,
  replaces the tally object by \<open>tallyPure(votes, candidateId)\<close>, adds the voter to
  the voted set and changes nothing else. In every case the value returned is
  the value of the callback that was invoked, and \<open>undefined\<close> when that
  callback argument is not a function.
\<close>

theorem castVote_success:
  "(v \<in> set (registeredVoters e) \<and> c \<in> c_id ` set (candidateList e)
      \<and> v \<notin> set (votedVoters e) \<longrightarrow>
      invoked (castVote e v c s f) =
        SuccessCb (JObj [(''voterId'', v), (''candidateId'', JStr c)]) \<and>
      tally_obj (votes (after (castVote e v c s f))) = tallyPure (tally_obj (votes e)) c \<and>
      votedVoters (after (castVote e v c s f)) = votedVoters e @ [v] \<and>
      registeredVoters (after (castVote e v c s f)) = registeredVoters e \<and>
      candidateList (after (castVote e v c s f)) = candidateList e) \<and>
   returned (castVote e v c s f) =
     (case invoked (castVote e v c s f) of
        SuccessCb x \<Rightarrow> (case s of Some g \<Rightarrow> g x | None \<Rightarrow> Undefined)
      | ErrorCb x \<Rightarrow> (case f of Some g \<Rightarrow> g x | None \<Rightarrow> Undefined))"
  by (auto simp add: castVote_def Let_def set_has_def set_add_def candidateById_None_iff
      tallyPure_tally_obj split: option.splits)

theorem castVote_success_witness:
  "invoked (castVote demo_registered (JStr ''V1'') ''C1'' (Some (\<lambda>r. JStr ''voted!'')) None) =
     SuccessCb (JObj [(''voterId'', JStr ''V1''), (''candidateId'', JStr ''C1'')]) \<and>
   returned (castVote demo_registered (JStr ''V1'') ''C1'' (Some (\<lambda>r. JStr ''voted!'')) None) =
     JStr ''voted!'' \<and>
   returned (castVote demo_registered (JStr ''V1'') ''C1'' None None) = Undefined \<and>
   votes (after (castVote demo_registered (JStr ''V1'') ''C1'' None None)) = [(''C1'', 1)]"
proof -
  have h: "JStr ''V1'' \<in> set (registeredVoters demo_registered) \<and>
           ''C1'' \<in> c_id ` set (candidateList demo_registered) \<and>
           JStr ''V1'' \<notin> set (votedVoters demo_registered)"
    by (simp add: demo_defs eval_defs)
  have t: "votes (after (castVote demo_registered (JStr ''V1'') ''C1'' None None)) = [(''C1'', 1)]"
    by (simp add: demo_defs eval_defs)
  show ?thesis
    using h t
      castVote_success [of "JStr ''V1''" demo_registered "''C1''" "Some (\<lambda>r. JStr ''voted!'')" None]
      castVote_success [of "JStr ''V1''" demo_registered "''C1''" None None]
    by simp
qed

subsection \<open>registerVoter\<close>

text \<open>
  C7: \<open>registerVoter\<close> returns \<open>true\<close> and appends the voter's id to the
  registered set exactly when the voter is an object whose \<open>id\<close> and \<open>name\<close> are
  non-empty strings and whose \<open>age\<close> is a finite number of at least 18, and the
  id is not registered yet; otherwise it returns \<open>false\<close> and the state is
  unchanged. Once it has returned \<open>true\<close>, every later call for a voter with the
  same id, after any further operations, returns \<open>false\<close> and changes nothing.
\<close>

theorem registerVoter_spec:
  "registerVoter e voter =
     (if truthy voter \<and> typeof voter = TObject \<and>
         (\<exists>i n a. get_prop voter ''id'' = JStr i \<and> i \<noteq> [] \<and>
                  get_prop voter ''name'' = JStr n \<and> n \<noteq> [] \<and>
                  get_prop voter ''age'' = JNum (Fin a) \<and> 18 \<le> a) \<and>
         get_prop voter ''id'' \<notin> set (registeredVoters e)
      then (True, e\<lparr>registeredVoters := registeredVoters e @ [get_prop voter ''id'']\<rparr>)
      else (False, e)) \<and>
   (fst (registerVoter e voter) \<longrightarrow>
      (\<forall>later again. get_prop again ''id'' = get_prop voter ''id'' \<longrightarrow>
         registerVoter (run (snd (registerVoter e voter)) later) again =
           (False, run (snd (registerVoter e voter)) later)))"
proof -
  have 1: "registerVoter e voter =
     (if truthy voter \<and> typeof voter = TObject \<and>
         (\<exists>i n a. get_prop voter ''id'' = JStr i \<and> i \<noteq> [] \<and>
                  get_prop voter ''name'' = JStr n \<and> n \<noteq> [] \<and>
                  get_prop voter ''age'' = JNum (Fin a) \<and> 18 \<le> a) \<and>
         get_prop voter ''id'' \<notin> set (registeredVoters e)
      then (True, e\<lparr>registeredVoters := registeredVoters e @ [get_prop voter ''id'']\<rparr>)
      else (False, e))"
    unfolding registerVoter_def isValidVoter_iff set_has_def set_add_def by auto
  have 2: "registerVoter (run (snd (registerVoter e voter)) later) again =
           (False, run (snd (registerVoter e voter)) later)"
    if ok: "fst (registerVoter e voter)" and same: "get_prop again ''id'' = get_prop voter ''id''"
    for later again
  proof -
    from ok have "get_prop voter ''id'' \<in> set (registeredVoters (snd (registerVoter e voter)))"
      by (auto simp add: registerVoter_def set_add_def split: if_splits)
    then have "get_prop again ''id''
        \<in> set (registeredVoters (run (snd (registerVoter e voter)) later))"
      using same by (simp add: run_registered)
    then show ?thesis
      by (simp add: registerVoter_def set_has_def)
  qed
  from 1 2 show ?thesis by blast
qed

theorem registerVoter_spec_witness:
  "registerVoter demo_election demo_voter = (True, demo_registered) \<and>
   registerVoter demo_registered demo_voter = (False, demo_registered) \<and>
   registerVoter demo_voted demo_voter = (False, demo_voted) \<and>
   registerVoter demo_election
      (JObj [(''id'', JStr ''V2''), (''name'', JStr ''Chhotu''), (''age'', JNum (Fin 17))]) =
     (False, demo_election)"
proof -
  have a: "registerVoter demo_election demo_voter = (True, demo_registered)"
    by (simp add: demo_defs eval_defs)
  have b: "run demo_registered [] = demo_registered"
    "run demo_registered [CastVote (JStr ''V1'') ''C1'' None None] = demo_voted"
    by (simp_all add: demo_defs eval_defs)
  have c: "registerVoter demo_election
      (JObj [(''id'', JStr ''V2''), (''name'', JStr ''Chhotu''), (''age'', JNum (Fin 17))]) =
     (False, demo_election)"
    using registerVoter_spec [of demo_election
        "JObj [(''id'', JStr ''V2''), (''name'', JStr ''Chhotu''), (''age'', JNum (Fin 17))]"]
    by simp
  have d: "\<forall>later again. get_prop again ''id'' = get_prop demo_voter ''id'' \<longrightarrow>
         registerVoter (run demo_registered later) again = (False, run demo_registered later)"
    using registerVoter_spec [of demo_election demo_voter] a by simp
  from d have "registerVoter (run demo_registered []) demo_voter =
      (False, run demo_registered [])"
    by blast
  moreover from d have
    "registerVoter (run demo_registered [CastVote (JStr ''V1'') ''C1'' None None]) demo_voter
      = (False, run demo_registered [CastVote (JStr ''V1'') ''C1'' None None])"
    by blast
  ultimately show ?thesis using a b c by simp
qed

subsection \<open>createVoteValidator\<close>

text \<open>
  C8, as stated, fails in its age check: the validator does not test
  \<open>age \<ge> minAge\<close> alone, it first requires \<open>Number.isFinite(voter.age)\<close>. A voter
  whose age is \<open>Infinity\<close> is at least 18 and is reported \<open>underage\<close>.
\<close>

theorem validator_age_counterexample:
  "spec_age_ok (JNum PosInf) 18 \<and>
   createVoteValidator None (JObj [(''age'', JNum PosInf)]) = Invalid ''underage''"
  by (simp add: spec_age_ok_def createVoteValidator_def inherited_def)

text \<open>
  C8, amended: the validator answers \<open>invalid voter\<close> for a voter that is not an
  object; else \<open>missing field: f\<close> for the first required field \<open>f\<close>, in order,
  whose value is \<open>undefined\<close>, \<open>null\<close> or the empty string (any other value,
  \<open>0\<close> and \<open>false\<close> included, is present); else \<open>underage\<close> unless the age is a
  finite number of at least \<open>minAge\<close>; else valid. \<open>minAge\<close> is 18 unless the
  rules give a finite number, and no field is required unless the rules give an
  array.
\<close>

theorem validator_spec:
  "createVoteValidator rs voter =
     (if \<not> (truthy voter \<and> typeof voter = TObject) then Invalid ''invalid voter''
      else case filter (\<lambda>k. get_prop voter k \<in> {Undefined, Null, JStr []})
                  (case rs of None \<Rightarrow> []
                   | Some r \<Rightarrow> (case requiredFields r of None \<Rightarrow> [] | Some fs \<Rightarrow> fs)) of
             k # ks \<Rightarrow> Invalid (''missing field: '' @ k)
           | [] \<Rightarrow>
               (case get_prop voter ''age'' of
                  JNum (Fin a) \<Rightarrow>
                    if (case rs of None \<Rightarrow> 18
                        | Some r \<Rightarrow> (case minAge r of JNum (Fin m) \<Rightarrow> m | _ \<Rightarrow> 18)) \<le> a
                    then Valid else Invalid ''underage''
                | _ \<Rightarrow> Invalid ''underage''))"
proof -
  have a: "(if \<not> isFinite w \<or> num_lt w k then Invalid ''underage'' else Valid) =
       (case w of JNum (Fin a) \<Rightarrow> if k \<le> a then Valid else Invalid ''underage''
                | _ \<Rightarrow> Invalid ''underage'')" for w k
  proof (cases w)
    case (JNum n)
    then show ?thesis by (cases n) auto
  qed auto
  show ?thesis
    unfolding createVoteValidator_def Let_def first_missing_filter a finite_or_case
    by (simp split: list.splits option.splits)
qed

theorem validator_spec_witness:
  "createVoteValidator (Some \<lparr> minAge = JNum (Fin 21), requiredFields = Some [''id'', ''name''] \<rparr>)
     (JObj [(''id'', JNum (Fin 0)), (''name'', JBool False), (''age'', JNum (Fin 30))]) = Valid \<and>
   createVoteValidator (Some \<lparr> minAge = JNum (Fin 21), requiredFields = Some [''id'', ''name''] \<rparr>)
     (JObj [(''id'', JStr ''V1''), (''name'', JStr []), (''age'', JNum (Fin 30))]) =
     Invalid ''missing field: name'' \<and>
   createVoteValidator (Some \<lparr> minAge = JNum (Fin 21), requiredFields = Some [''id'', ''name''] \<rparr>)
     (JObj [(''id'', JStr ''V1''), (''name'', JStr ''Mohan''), (''age'', JNum (Fin 20))]) =
     Invalid ''underage'' \<and>
   createVoteValidator None (JObj [(''age'', JNum (Fin 18))]) = Valid \<and>
   createVoteValidator None (JStr ''V1'') = Invalid ''invalid voter''"
  using
    validator_spec [of "Some \<lparr> minAge = JNum (Fin 21), requiredFields = Some [''id'', ''name''] \<rparr>"
      "JObj [(''id'', JNum (Fin 0)), (''name'', JBool False), (''age'', JNum (Fin 30))]"]
    validator_spec [of "Some \<lparr> minAge = JNum (Fin 21), requiredFields = Some [''id'', ''name''] \<rparr>"
      "JObj [(''id'', JStr ''V1''), (''name'', JStr []), (''age'', JNum (Fin 30))]"]
    validator_spec [of "Some \<lparr> minAge = JNum (Fin 21), requiredFields = Some [''id'', ''name''] \<rparr>"
      "JObj [(''id'', JStr ''V1''), (''name'', JStr ''Mohan''), (''age'', JNum (Fin 20))]"]
    validator_spec [of None "JObj [(''age'', JNum (Fin 18))]"]
    validator_spec [of None "JStr ''V1''"]
  by (simp add: inherited_def object_prototype_functions_def)

subsection \<open>tallyPure on any argument\<close>

text \<open>
  C10, as stated, fails in \<open>the prior finite count plus one\<close>: the entry of the
  result is the sum of doubles \<open>current + 1\<close>, which is rounded. For the prior
  entry \<open>2^-60\<close> the sum \<open>1 + 2^-60\<close> is no double and the entry is 1; for the
  prior entry \<open>2^53 = 9007199254740992\<close> the entry stays \<open>2^53\<close>.
\<close>

theorem tallyPure_rounds_counterexample:
  "get_prop (tallyPure (JObj [(''a'', JNum (Fin (1 / 2 ^ 60)))]) ''a'') ''a'' = JNum (Fin 1) \<and>
   (1 :: rat) \<noteq> 1 / 2 ^ 60 + 1 \<and>
   get_prop (tallyPure (JObj [(''a'', JNum (Fin 9007199254740992))]) ''a'') ''a'' =
     JNum (Fin 9007199254740992) \<and>
   (9007199254740992 :: rat) \<noteq> 9007199254740992 + 1"
proof -
  have 1: "round_double (1152921504606846977 / 1152921504606846976) = 1"
    using round_double_one_plus_tiny by simp
  show ?thesis
    unfolding tallyPure_def Let_def by (simp add: 1 round_double_above_2_53)
qed

text \<open>
  C10, amended: \<open>tallyPure\<close> returns an object for every first argument. The
  entry of the result under the candidate id is a finite number: the double
  nearest to the argument's entry plus one when the argument is an object whose
  entry is a finite number, and 1 otherwise. An argument that is \<open>null\<close> or not
  an object counts as the empty tally; for an object the other own properties
  are carried over. The double nearest to \<open>q + 1\<close> is finite for every finite
  double \<open>q\<close>, and it is \<open>q + 1\<close> itself for every integer \<open>q\<close> from 0 to
  \<open>2^53 - 1\<close>.
\<close>

theorem tallyPure_total_defensive:
  "(\<exists>ps. tallyPure t c = JObj ps) \<and>
   get_prop (tallyPure t c) c =
     JNum (Fin (if truthy t \<and> typeof t = TObject
                then (case get_prop t c of JNum (Fin q) \<Rightarrow> round_double (q + 1) | _ \<Rightarrow> 1)
                else 1)) \<and>
   (if truthy t \<and> typeof t = TObject
    then own_props (tallyPure t c) = AList.update c (get_prop (tallyPure t c) c) (own_props t)
    else tallyPure t c = JObj [(c, JNum (Fin 1))]) \<and>
   (\<forall>q. \<bar>q\<bar> \<le> max_double \<longrightarrow> to_double (q + 1) = Fin (round_double (q + 1))) \<and>
   (\<forall>n::nat. n < 2 ^ 53 \<longrightarrow> round_double (of_nat n + 1) = of_nat n + 1)"
proof -
  have f: "round_double (finite_or v 0 + 1) =
      (case v of JNum (Fin q) \<Rightarrow> round_double (q + 1) | _ \<Rightarrow> 1)" for v
  proof (cases v)
    case (JNum n)
    then show ?thesis by (cases n) (auto simp add: round_double_one)
  qed (auto simp add: round_double_one)
  have 1: "\<exists>ps. tallyPure t c = JObj ps"
    by (simp add: tallyPure_def Let_def)
  have 2: "get_prop (tallyPure t c) c =
     JNum (Fin (if truthy t \<and> typeof t = TObject
                then (case get_prop t c of JNum (Fin q) \<Rightarrow> round_double (q + 1) | _ \<Rightarrow> 1)
                else 1))"
    by (simp add: tallyPure_def Let_def update_conv' f finite_or_inherited round_double_one)
      (simp add: inherited_def)
  have 3: "if truthy t \<and> typeof t = TObject
    then own_props (tallyPure t c) = AList.update c (get_prop (tallyPure t c) c) (own_props t)
    else tallyPure t c = JObj [(c, JNum (Fin 1))]"
    by (simp add: tallyPure_def Let_def update_conv' finite_or_inherited round_double_one)
  have 4: "\<forall>q. \<bar>q\<bar> \<le> max_double \<longrightarrow> to_double (q + 1) = Fin (round_double (q + 1))"
    by (simp add: double_plus_one_finite)
  have 5: "\<forall>n::nat. n < 2 ^ 53 \<longrightarrow> round_double (of_nat n + 1) = of_nat n + 1"
    by (simp add: round_double_count)
  from 1 2 3 4 5 show ?thesis
    by (intro conjI)
qed

theorem tallyPure_total_defensive_witness:
  "tallyPure Null ''b'' = JObj [(''b'', JNum (Fin 1))] \<and>
   tallyPure (JNum (Fin 7)) ''b'' = JObj [(''b'', JNum (Fin 1))] \<and>
   get_prop (tallyPure (JObj [(''a'', JStr ''x''), (''b'', JNum NaN)]) ''b'') ''b'' = JNum (Fin 1) \<and>
   get_prop (tallyPure (JObj [(''a'', JStr ''x''), (''b'', JNum (Fin 4))]) ''b'') ''b'' = JNum (Fin 5) \<and>
   get_prop (tallyPure (JObj []) ''toString'') ''toString'' = JNum (Fin 1) \<and>
   \<bar>4 :: rat\<bar> \<le> max_double \<and> to_double (4 + 1) = Fin 5 \<and> (4 :: nat) < 2 ^ 53"
proof -
  note t = tallyPure_total_defensive [of "JObj [(''a'', JStr ''x''), (''b'', JNum (Fin 4))]" "''b''"]
  from t have e: "\<forall>n::nat. n < 2 ^ 53 \<longrightarrow> round_double (of_nat n + 1) = of_nat n + 1"
    by (elim conjE)
  from t have d: "\<forall>q. \<bar>q\<bar> \<le> max_double \<longrightarrow> to_double (q + 1) = Fin (round_double (q + 1))"
    by (elim conjE)
  have s: "(4 :: nat) < 2 ^ 53"
    by simp
  with e have "round_double (of_nat 4 + 1) = of_nat 4 + 1"
    by blast
  then have r5: "round_double 5 = 5"
    by simp
  have m: "\<bar>4 :: rat\<bar> \<le> max_double"
    by (simp add: max_double_def)
  with d have "to_double (4 + 1) = Fin (round_double (4 + 1))"
    by blast
  then have o: "to_double (4 + 1) = Fin 5"
    by (simp add: r5)
  show ?thesis
    using tallyPure_total_defensive [of Null "''b''"]
      tallyPure_total_defensive [of "JNum (Fin 7)" "''b''"]
      tallyPure_total_defensive [of "JObj [(''a'', JStr ''x''), (''b'', JNum NaN)]" "''b''"]
      t
      tallyPure_total_defensive [of "JObj []" "''toString''"]
      s m o
    by (simp add: inherited_def object_prototype_functions_def r5)
qed

subsection \<open>getResults and getWinner with an inherited property name\<close>

text \<open>
  C5 on the election whose one candidate has the id \<open>constructor\<close>, with no vote
  cast: the tally object \<open>{}\<close> has no own property of that name, so
  \<open>votes[c.id]\<close> is the inherited \<open>Object.prototype.constructor\<close>, which \<open>??\<close> keeps.
  The record's \<open>votes\<close> is that function and not the count 0. On a roster
  with distinct ids of which none reads an inherited property the claim holds
  (\<open>getResults_default_order\<close>, \<open>getResults_no_votes\<close>).
\<close>

theorem getResults_inherited_votes:
  "votes constructor_election = [] \<and>
   getResults constructor_election None =
     [\<lparr> r_id = ''constructor'', r_name = ''Pradhan Sita'', r_party = ''Lok'',
         r_votes = Inherited ''constructor'' \<rparr>]"
  by (simp add: demo_defs createElection_def getResults_def result_record_def read_votes_def
      inherited_def object_prototype_functions_def array_sort_def)

text \<open>
  C4 on the same election: no vote has been cast, the leading record's \<open>votes\<close>
  is not \<open>=== 0\<close>, and \<open>getWinner\<close> returns the candidate instead of \<open>null\<close>.
  On a roster with distinct ids of which none reads an inherited property the
  claim holds (\<open>getWinner_first_of_best\<close>).
\<close>

theorem getWinner_without_votes:
  "votes constructor_election = [] \<and> votedVoters constructor_election = [] \<and>
   getWinner constructor_election = Some constructor_candidate"
  by (simp add: demo_defs createElection_def getWinner_def getResults_def result_record_def
      read_votes_def inherited_def object_prototype_functions_def array_sort_def candidateById_def
      js_Map_def)

subsection \<open>tallyPure is pure\<close>

text \<open>
  C6, as stated, fails in \<open>incremented by one\<close> for a count that has reached
  \<open>2^53 = 9007199254740992\<close>: the sum \<open>current + 1\<close> is a sum of doubles,
  \<open>2^53 + 1\<close> is no double, and the result maps the candidate to \<open>2^53\<close> again.
\<close>

theorem tallyPure_increment_counterexample:
  "tallyPure (tally_obj [(''a'', 9007199254740992)]) ''a'' =
     tally_obj [(''a'', 9007199254740992)] \<and>
   tally_obj [(''a'', 9007199254740992)] \<noteq> tally_obj [(''a'', 9007199254740992 + 1)]"
proof -
  have "round_double (9007199254740992 + 1) = 9007199254740992"
    using round_double_above_2_53 by simp
  then show ?thesis
    unfolding tallyPure_def Let_def by (simp add: tally_obj_def)
qed

text \<open>
  C6, amended: for every tally \<open>t\<close> and candidate id \<open>c\<close>, \<open>tallyPure(t, c)\<close> is a
  tally that agrees with \<open>t\<close> on every id but \<open>c\<close> and has a count for \<open>c\<close>; that
  count is the count of \<open>c\<close> in \<open>t\<close> plus one, an absent count being 0, whenever
  the count in \<open>t\<close> is below \<open>2^53\<close>. \<open>tallyPure({a:1}, "a")\<close> is \<open>{a:2}\<close> and
  \<open>tallyPure({}, "b")\<close> is \<open>{b:1}\<close>. On the heap the result is a new object, at an
  address not allocated before the call, and the argument object and every
  other object of the heap are as they were.
\<close>

theorem tallyPure_pure:
  "(\<exists>t'. tallyPure (tally_obj t) c = tally_obj t' \<and>
         (\<forall>k. k \<noteq> c \<longrightarrow> map_of t' k = map_of t k) \<and>
         (\<exists>m. map_of t' c = Some m) \<and>
         ((case map_of t c of Some n \<Rightarrow> n | None \<Rightarrow> 0) < 2 ^ 53 \<longrightarrow>
            map_of t' c = Some ((case map_of t c of Some n \<Rightarrow> n | None \<Rightarrow> 0) + 1))) \<and>
   tallyPure (JObj [(''a'', JNum (Fin 1))]) ''a'' = JObj [(''a'', JNum (Fin 2))] \<and>
   tallyPure (JObj []) ''b'' = JObj [(''b'', JNum (Fin 1))] \<and>
   (tally_at h a = Some t \<longrightarrow>
      (\<exists>h' a' t'. tallyPure_h h a c = Some (h', a') \<and> a' \<noteq> a \<and> length h \<le> a' \<and>
         same_below (length h) h h' \<and> tally_at h' a = Some t \<and>
         tally_at h' a' = Some t' \<and> tally_obj t' = tallyPure (tally_obj t) c))"
proof -
  have 1: "\<exists>t'. tallyPure (tally_obj t) c = tally_obj t' \<and>
         (\<forall>k. k \<noteq> c \<longrightarrow> map_of t' k = map_of t k) \<and>
         (\<exists>m. map_of t' c = Some m) \<and>
         ((case map_of t c of Some n \<Rightarrow> n | None \<Rightarrow> 0) < 2 ^ 53 \<longrightarrow>
            map_of t' c = Some ((case map_of t c of Some n \<Rightarrow> n | None \<Rightarrow> 0) + 1))"
  proof (intro exI conjI allI impI)
    show "tallyPure (tally_obj t) c = tally_obj (tallyPure_votes t c)"
      by (rule tallyPure_tally_obj)
    show "map_of (tallyPure_votes t c) k = map_of t k" if "k \<noteq> c" for k
      using that by (simp add: map_of_tallyPure_votes)
    show "map_of (tallyPure_votes t c) c =
        Some (count_plus_one (case map_of t c of Some n \<Rightarrow> n | None \<Rightarrow> 0))"
      by (simp add: map_of_tallyPure_votes)
    show "map_of (tallyPure_votes t c) c =
        Some ((case map_of t c of Some n \<Rightarrow> n | None \<Rightarrow> 0) + 1)"
      if "(case map_of t c of Some n \<Rightarrow> n | None \<Rightarrow> 0) < 2 ^ 53"
      using count_plus_one_small [OF that] by (simp add: map_of_tallyPure_votes)
  qed
  have r2: "round_double 2 = 2"
    using round_double_int(2) [of 2] by simp
  have 2: "tallyPure (JObj [(''a'', JNum (Fin 1))]) ''a'' = JObj [(''a'', JNum (Fin 2))]"
    by (simp add: tallyPure_def r2)
  have 3: "tallyPure (JObj []) ''b'' = JObj [(''b'', JNum (Fin 1))]"
    by (simp add: tallyPure_def inherited_def object_prototype_functions_def round_double_one)
  have 4: "\<exists>h' a' t'. tallyPure_h h a c = Some (h', a') \<and> a' \<noteq> a \<and> length h \<le> a' \<and>
         same_below (length h) h h' \<and> tally_at h' a = Some t \<and>
         tally_at h' a' = Some t' \<and> tally_obj t' = tallyPure (tally_obj t) c"
    if "tally_at h a = Some t"
  proof -
    note f = tallyPure_h_fresh [OF that, of c]
    show ?thesis
    proof (intro exI conjI)
      show "tallyPure_h h a c = Some (h @ [TallyObj (tallyPure_votes t c)], length h)"
        using f by simp
      show "length h \<noteq> a" using f by simp
      show "length h \<le> length h" by simp
      show "same_below (length h) h (h @ [TallyObj (tallyPure_votes t c)])"
        by (rule same_below_append)
      show "tally_at (h @ [TallyObj (tallyPure_votes t c)]) a = Some t" using f by simp
      show "tally_at (h @ [TallyObj (tallyPure_votes t c)]) (length h) = Some (tallyPure_votes t c)"
        using f by simp
      show "tally_obj (tallyPure_votes t c) = tallyPure (tally_obj t) c"
        by (simp add: tallyPure_tally_obj)
    qed
  qed
  from 1 2 3 4 show ?thesis
    by blast
qed

theorem tallyPure_pure_witness:
  "tally_at demo_heap 3 = Some [(''C1'', 1)] \<and>
   (case map_of [(''C1'', 1 :: nat)] ''C1'' of Some n \<Rightarrow> n | None \<Rightarrow> 0) < 2 ^ 53 \<and>
   (\<exists>t'. tallyPure (tally_obj [(''C1'', 1)]) ''C1'' = tally_obj t' \<and>
          map_of t' ''C1'' = Some 2) \<and>
   (\<exists>h' a'. tallyPure_h demo_heap 3 ''C1'' = Some (h', a') \<and> a' \<noteq> 3 \<and>
      tally_at h' 3 = Some [(''C1'', 1)] \<and>
      (\<exists>t'. tally_at h' a' = Some t' \<and> tally_obj t' = JObj [(''C1'', JNum (Fin 2))]))"
proof -
  note p = tallyPure_pure [of "[(''C1'', 1)]" "''C1''" demo_heap 3]
  have h: "tally_at demo_heap 3 = Some [(''C1'', 1)]"
    by (simp add: tally_at_def demo_heap_def)
  have s: "(case map_of [(''C1'', 1 :: nat)] ''C1'' of Some n \<Rightarrow> n | None \<Rightarrow> 0) < 2 ^ 53"
    by simp
  from p s have c: "\<exists>t'. tallyPure (tally_obj [(''C1'', 1)]) ''C1'' = tally_obj t' \<and>
          map_of t' ''C1'' = Some 2"
    by auto
  have r2: "round_double 2 = 2"
    using round_double_int(2) [of 2] by simp
  have v: "tallyPure (tally_obj [(''C1'', 1)]) ''C1'' = JObj [(''C1'', JNum (Fin 2))]"
    by (simp add: tallyPure_def tally_obj_def r2)
  from p h
  have "\<exists>h' a' t'. tallyPure_h demo_heap 3 ''C1'' = Some (h', a') \<and> a' \<noteq> 3 \<and>
         length demo_heap \<le> a' \<and> same_below (length demo_heap) demo_heap h' \<and>
         tally_at h' 3 = Some [(''C1'', 1)] \<and>
         tally_at h' a' = Some t' \<and> tally_obj t' = tallyPure (tally_obj [(''C1'', 1)]) ''C1''"
    by blast
  then have "\<exists>h' a'. tallyPure_h demo_heap 3 ''C1'' = Some (h', a') \<and> a' \<noteq> 3 \<and>
      tally_at h' 3 = Some [(''C1'', 1)] \<and>
      (\<exists>t'. tally_at h' a' = Some t' \<and> tally_obj t' = JObj [(''C1'', JNum (Fin 2))])"
    unfolding v by blast
  with h s c show ?thesis
    by (intro conjI)
qed

subsection \<open>Returned values and the closure's state\<close>

text \<open>
  C9 on the election \<open>proto_election\<close>, whose first candidate has the id
  \<open>__proto__\<close>, with no vote cast: the tally object \<open>{}\<close> has no own property of
  that name, so \<open>votes[c.id]\<close> is \<open>Object.prototype\<close>, which \<open>??\<close> keeps. The
  \<open>votes\<close> field of the first record returned by \<open>getResults\<close> is that object:
  not a new one, and the prototype of the closure's tally object. A caller who
  assigns \<open>5\<close> to its property \<open>C2\<close> changes what the tally yields for the
  second candidate, whose count of 0 is not an own property: the next
  \<open>getResults\<close> reads 5 from a tally object that has not changed. The reads in
  \<open>tallyPure\<close> and so in \<open>castVote\<close> go through the same prototype. Same defect
  as in C4 and C5.
\<close>

theorem getResults_exposes_prototype:
  "votes proto_election = [] \<and>
   map r_id (getResults proto_election None) = [''__proto__'', ''C2''] \<and>
   map r_votes (getResults proto_election None) = [Inherited ''__proto__'', Count 0] \<and>
   inherited ''__proto__'' = JObjProto \<and>
   votes_or_zero [] (votes proto_election) ''__proto__'' = JObjProto \<and>
   votes_or_zero [] (votes proto_election) ''C2'' = JNum (Fin 0) \<and>
   votes_or_zero [(''C2'', JNum (Fin 5))] (votes proto_election) ''__proto__'' = JObjProto \<and>
   votes_or_zero [(''C2'', JNum (Fin 5))] (votes proto_election) ''C2'' = JNum (Fin 5)"
  by (simp add: proto_election_def createElection_def getResults_def result_record_def
      read_votes_def inherited_def object_prototype_functions_def array_sort_def
      default_compare_def votes_or_zero_def prototype_get_def)

text \<open>
  Apart from that defect the returned values are new objects. On a heap where
  the closure holds the election state \<open>e\<close>, and no record of \<open>e\<close> reads an
  inherited property, \<open>getResults\<close> returns a new array of new records, which
  read back as \<open>getResults e\<close>, and \<open>getWinner\<close> returns \<open>null\<close> or a new object
  with the winner's fields: none of the returned addresses is one the closure
  holds or finds in its roster. Whatever a caller then writes to the objects
  allocated by the call (or allocates), the closure still holds the state \<open>e\<close>
  (roster, tally and both sets), and a second call returns values that read
  back the same.
\<close>

lemma results_new_without_inherited:
  assumes st: "state_of h cl = Some e" and "no_inherited_votes e"
  shows
   "(\<exists>h' arr refs.
       getResults_h h cl f = Some (h', arr) \<and> array_at h' arr = Some refs \<and>
       those (map (result_at h') refs) = Some (getResults e f) \<and>
       arr \<notin> owned h cl \<and> set refs \<inter> owned h cl = {} \<and>
       length h \<le> arr \<and> (\<forall>r\<in>set refs. length h \<le> r) \<and>
       (\<forall>h''. same_below (length h) h' h'' \<longrightarrow>
          state_of h'' cl = Some e \<and>
          (\<exists>h3 arr3 refs3. getResults_h h'' cl f = Some (h3, arr3) \<and>
             array_at h3 arr3 = Some refs3 \<and>
             those (map (result_at h3) refs3) = Some (getResults e f)))) \<and>
    (\<exists>h' w.
       getWinner_h h cl = Some (h', w) \<and>
       (case w of
          None \<Rightarrow> getWinner e = None
        | Some a \<Rightarrow> a \<notin> owned h cl \<and> length h \<le> a \<and>
                    (\<exists>c. candidate_at h' a = Some c \<and> getWinner e = Some c)) \<and>
       (\<forall>h''. same_below (length h) h' h'' \<longrightarrow>
          state_of h'' cl = Some e \<and>
          (\<exists>h3 w3. getWinner_h h'' cl = Some (h3, w3) \<and>
             (case w3 of
                None \<Rightarrow> getWinner e = None
              | Some a \<Rightarrow> \<exists>c. candidate_at h3 a = Some c \<and> getWinner e = Some c))))"
proof -
  have old: "state_of h'' cl = Some e"
    if "same_below (length h) h h'" and "same_below (length h) h' h''" for h' h''
  proof -
    from that have "same_below (length h) h h''"
      by (rule same_below_trans)
    with st show ?thesis
      by (rule state_of_same)
  qed
  have fresh: "a \<notin> owned h cl" if "length h \<le> a" for a
    using owned_below [OF st, of a] that by auto
  have 1: "\<exists>h' arr refs.
       getResults_h h cl f = Some (h', arr) \<and> array_at h' arr = Some refs \<and>
       those (map (result_at h') refs) = Some (getResults e f) \<and>
       arr \<notin> owned h cl \<and> set refs \<inter> owned h cl = {} \<and>
       length h \<le> arr \<and> (\<forall>r\<in>set refs. length h \<le> r) \<and>
       (\<forall>h''. same_below (length h) h' h'' \<longrightarrow>
          state_of h'' cl = Some e \<and>
          (\<exists>h3 arr3 refs3. getResults_h h'' cl f = Some (h3, arr3) \<and>
             array_at h3 arr3 = Some refs3 \<and>
             those (map (result_at h3) refs3) = Some (getResults e f)))"
  proof -
    from getResults_h_fresh [OF st, of f]
    obtain h' arr refs where g: "getResults_h h cl f = Some (h', arr)"
      and s: "same_below (length h) h h'" and a: "array_at h' arr = Some refs"
      and l: "length h \<le> arr" and r: "\<forall>r\<in>set refs. length h \<le> r"
      and t: "those (map (result_at h') refs) = Some (getResults e f)"
      by blast
    have again: "state_of h'' cl = Some e \<and>
          (\<exists>h3 arr3 refs3. getResults_h h'' cl f = Some (h3, arr3) \<and>
             array_at h3 arr3 = Some refs3 \<and>
             those (map (result_at h3) refs3) = Some (getResults e f))"
      if "same_below (length h) h' h''" for h''
    proof -
      from s that have e'': "state_of h'' cl = Some e"
        by (rule old)
      from getResults_h_fresh [OF e'', of f] e'' show ?thesis
        by blast
    qed
    from r have d: "set refs \<inter> owned h cl = {}"
      using fresh by blast
    from l have "arr \<notin> owned h cl"
      by (rule fresh)
    with g a t d l r again show ?thesis
      by blast
  qed
  have 2: "\<exists>h' w.
       getWinner_h h cl = Some (h', w) \<and>
       (case w of
          None \<Rightarrow> getWinner e = None
        | Some a \<Rightarrow> a \<notin> owned h cl \<and> length h \<le> a \<and>
                    (\<exists>c. candidate_at h' a = Some c \<and> getWinner e = Some c)) \<and>
       (\<forall>h''. same_below (length h) h' h'' \<longrightarrow>
          state_of h'' cl = Some e \<and>
          (\<exists>h3 w3. getWinner_h h'' cl = Some (h3, w3) \<and>
             (case w3 of
                None \<Rightarrow> getWinner e = None
              | Some a \<Rightarrow> \<exists>c. candidate_at h3 a = Some c \<and> getWinner e = Some c)))"
  proof -
    from getWinner_h_fresh [OF st]
    obtain h' w where g: "getWinner_h h cl = Some (h', w)"
      and s: "same_below (length h) h h'"
      and c: "case w of
              None \<Rightarrow> getWinner e = None
            | Some a \<Rightarrow> length h \<le> a \<and> (\<exists>c. candidate_at h' a = Some c \<and> getWinner e = Some c)"
      by blast
    have c': "case w of
          None \<Rightarrow> getWinner e = None
        | Some a \<Rightarrow> a \<notin> owned h cl \<and> length h \<le> a \<and>
                    (\<exists>c. candidate_at h' a = Some c \<and> getWinner e = Some c)"
      using c fresh by (cases w) simp_all
    have again: "state_of h'' cl = Some e \<and>
          (\<exists>h3 w3. getWinner_h h'' cl = Some (h3, w3) \<and>
             (case w3 of
                None \<Rightarrow> getWinner e = None
              | Some a \<Rightarrow> \<exists>c. candidate_at h3 a = Some c \<and> getWinner e = Some c))"
      if "same_below (length h) h' h''" for h''
    proof -
      from s that have e'': "state_of h'' cl = Some e"
        by (rule old)
      from getWinner_h_fresh [OF e'']
      obtain h3 w3 where g3: "getWinner_h h'' cl = Some (h3, w3)"
        and c3: "case w3 of
              None \<Rightarrow> getWinner e = None
            | Some a \<Rightarrow> length h'' \<le> a \<and> (\<exists>c. candidate_at h3 a = Some c \<and> getWinner e = Some c)"
        by blast
      from c3 have "case w3 of
                None \<Rightarrow> getWinner e = None
              | Some a \<Rightarrow> \<exists>c. candidate_at h3 a = Some c \<and> getWinner e = Some c"
        by (cases w3) simp_all
      with e'' g3 show ?thesis
        by blast
    qed
    from g c' again show ?thesis
      by blast
  qed
  from 1 2 show ?thesis ..
qed

lemma results_new_demo:
  "state_of demo_heap demo_closure = Some demo_voted \<and>
   (\<exists>h' arr refs.
      getResults_h demo_heap demo_closure None = Some (h', arr) \<and>
      array_at h' arr = Some refs \<and>
      those (map (result_at h') refs) =
        Some [\<lparr> r_id = ''C1'', r_name = ''Sarpanch Ram'', r_party = ''Janata'',
                 r_votes = Count 1 \<rparr>] \<and>
      4 \<le> arr \<and>
      state_of (h'[arr := ArrayObj []]) demo_closure = Some demo_voted) \<and>
   (\<exists>h' a.
      getWinner_h demo_heap demo_closure = Some (h', Some a) \<and> 4 \<le> a \<and>
      candidate_at h' a = Some demo_candidate \<and>
      state_of (h'[a := CandidateObj \<lparr> c_id = ''C1'', c_name = ''X'', c_party = ''Y'' \<rparr>])
        demo_closure = Some demo_voted)"
proof -
  have n: "no_inherited_votes demo_voted"
    by (simp add: demo_voted_eq) (simp add: no_inherited_votes_def demo_candidate_def)
  note t = results_new_without_inherited [OF demo_state n, of None]
  have len: "length demo_heap = 4"
    by (simp add: demo_heap_def)
  from t obtain h' arr refs where g: "getResults_h demo_heap demo_closure None = Some (h', arr)"
    and a: "array_at h' arr = Some refs"
    and r: "those (map (result_at h') refs) = Some (getResults demo_voted None)"
    and l: "length demo_heap \<le> arr"
    and m: "\<forall>h''. same_below (length demo_heap) h' h'' \<longrightarrow> state_of h'' demo_closure = Some demo_voted"
    by blast
  from a have "arr < length h'"
    by (simp add: array_at_def split: if_splits)
  with l have "same_below (length demo_heap) h' (h'[arr := ArrayObj []])"
    by (intro same_below_update same_below_refl) simp_all
  with m have 1: "state_of (h'[arr := ArrayObj []]) demo_closure = Some demo_voted"
    by blast
  from t obtain h2 w where g2: "getWinner_h demo_heap demo_closure = Some (h2, w)"
    and c: "case w of
          None \<Rightarrow> getWinner demo_voted = None
        | Some a \<Rightarrow> a \<notin> owned demo_heap demo_closure \<and> length demo_heap \<le> a \<and>
                    (\<exists>c. candidate_at h2 a = Some c \<and> getWinner demo_voted = Some c)"
    and m2: "\<forall>h''. same_below (length demo_heap) h2 h'' \<longrightarrow> state_of h'' demo_closure = Some demo_voted"
    by blast
  from c obtain b where w: "w = Some b" and lb: "length demo_heap \<le> b"
    and cb: "candidate_at h2 b = Some demo_candidate"
    by (cases w) (auto simp add: demo_winner)
  from cb have "b < length h2"
    by (simp add: candidate_at_def split: if_splits)
  with lb have "same_below (length demo_heap) h2
      (h2[b := CandidateObj \<lparr> c_id = ''C1'', c_name = ''X'', c_party = ''Y'' \<rparr>])"
    by (intro same_below_update same_below_refl) simp_all
  with m2 have 2: "state_of (h2[b := CandidateObj \<lparr> c_id = ''C1'', c_name = ''X'', c_party = ''Y'' \<rparr>])
      demo_closure = Some demo_voted"
    by blast
  from g a r l 1 have A: "\<exists>h' arr refs.
      getResults_h demo_heap demo_closure None = Some (h', arr) \<and>
      array_at h' arr = Some refs \<and>
      those (map (result_at h') refs) =
        Some [\<lparr> r_id = ''C1'', r_name = ''Sarpanch Ram'', r_party = ''Janata'',
                 r_votes = Count 1 \<rparr>] \<and>
      4 \<le> arr \<and>
      state_of (h'[arr := ArrayObj []]) demo_closure = Some demo_voted"
    unfolding demo_results len by blast
  from g2 w lb cb 2 have B: "\<exists>h' a.
      getWinner_h demo_heap demo_closure = Some (h', Some a) \<and> 4 \<le> a \<and>
      candidate_at h' a = Some demo_candidate \<and>
      state_of (h'[a := CandidateObj \<lparr> c_id = ''C1'', c_name = ''X'', c_party = ''Y'' \<rparr>])
        demo_closure = Some demo_voted"
    unfolding len by blast
  from demo_state A B show ?thesis
    by blast
qed

end
